theory Spec2Isabelle
  imports Main "HOL-Library.Word" "HOL-Library.Multiset" "HOL-Library.Tree_Multiset"
begin


section \<open>Data model of the search package\<close>

text \<open>
  The collector (package \<open>collector\<close>, \<open>TopNCollector\<close>) works on values of package
  \<open>search\<close>: \<open>DocumentMatch\<close>, \<open>SortOrder\<close>, \<open>Bucket\<close>. That package and the two
  stores \<open>newStoreSlice\<close>/\<open>newStoreHeap\<close> are not among the sources; what the
  collector needs of them is modelled from the specification and marked so.

  Go's \<open>int\<close> and \<open>int64\<close> are 64-bit two's complement integers: they are modelled
  as \<open>int\<close> with the wrap-around written out by \<open>wrap64\<close>.
\<close>

type_synonym byte = "8 word"

datatype error = Canceled | DeadlineExceeded | Failure string | MultiError "error list"

definition wrap64 :: "int \<Rightarrow> int" where
  "wrap64 x = (x + 2 ^ 63) mod 2 ^ 64 - 2 ^ 63"

text \<open>
  Modelled from the spec: \<open>search.DocumentMatch\<close>, the record a searcher produces for
  one matching document. Only the fields the collector reads or writes are kept:
  the hit number, the sort key vector ("the match's sort key vector"), and the
  error slot \<open>Err\<close>. \<open>LoadResult\<close> is what \<open>LoadDocumentValues\<close> returns for this
  match (\<open>None\<close> for \<open>nil\<close>); \<open>Number\<close> is the document number.
\<close>

record DocumentMatch =
  Number :: nat
  HitNumber :: int
  SortValue :: "byte list list"
  Err :: "error option"
  LoadResult :: "error option"

text \<open>
  Modelled from the spec: one term of a \<open>search.SortOrder\<close>. A term is ascending or
  descending, names the fields whose values it needs, and evaluates to one entry
  of the sort key vector ("evaluate each sort term (field value, score, doc id,
  hit number) into the match's sort key vector").
\<close>

record SearchSort =
  desc :: bool
  sort_fields :: "string list"
  sort_eval :: "DocumentMatch \<Rightarrow> byte list"

type_synonym SortOrder = "SearchSort list"

text \<open>Modelled from the spec: \<open>SortOrder.Fields\<close>, the fields the sort terms need.\<close>

definition Fields :: "SortOrder \<Rightarrow> string list" where
  "Fields so = concat (map sort_fields so)"

text \<open>
  Modelled from the spec: \<open>SortOrder.Compute\<close>, the compute-sort stage: every sort
  term is evaluated into the match's sort key vector.
\<close>

definition Compute :: "SortOrder \<Rightarrow> DocumentMatch \<Rightarrow> DocumentMatch" where
  "Compute so d = d\<lparr>SortValue := map (\<lambda>s. sort_eval s d) so\<rparr>"

text \<open>
  Modelled from the spec: the comparison of two byte strings (Go's
  \<open>bytes.Compare\<close>): lexicographic, a proper prefix first, result \<open>-1\<close>, \<open>0\<close> or \<open>1\<close>.
\<close>

fun bytes_compare :: "byte list \<Rightarrow> byte list \<Rightarrow> int" where
  "bytes_compare [] [] = 0"
| "bytes_compare [] (y # ys) = - 1"
| "bytes_compare (x # xs) [] = 1"
| "bytes_compare (x # xs) (y # ys) =
     (if x < y then - 1 else if y < x then 1 else bytes_compare xs ys)"

text \<open>
  Modelled from the spec: the comparison of two sort key vectors under a sort
  order, term by term; the first term whose entries differ decides, negated for a
  descending term. Key vectors shorter than the sort order are outside the spec
  (\<open>Compute\<close> never builds one); here the comparison stops at the shorter vector.
\<close>

fun compare_values :: "SortOrder \<Rightarrow> byte list list \<Rightarrow> byte list list \<Rightarrow> int" where
  "compare_values (s # ss) (iv # ivs) (jv # jvs) =
     (let c = bytes_compare iv jv in
      if c = 0 then compare_values ss ivs jvs
      else if desc s then - c else c)"
| "compare_values ss ivs jvs = 0"

text \<open>
  Modelled from the spec: \<open>SortOrder.Compare\<close>. Matches are ordered by their sort key
  vectors, "with ties broken by ascending hit number". A negative result means the
  first match sorts before (is better ranked than) the second.
\<close>

definition Compare :: "SortOrder \<Rightarrow> DocumentMatch \<Rightarrow> DocumentMatch \<Rightarrow> int" where
  "Compare so i j =
     (let c = compare_values so (SortValue i) (SortValue j) in
      if c \<noteq> 0 then c
      else if HitNumber i = HitNumber j then 0
      else if HitNumber i > HitNumber j then 1
      else - 1)"

section \<open>The collector's store\<close>

text \<open>
  Modelled from the spec: the slice store, "an ordered vector with linear
  insertion". The new match is placed by a linear scan from the worst-ranked end:
  it goes right behind the last entry it does not sort before. The scan is written
  on the reversed vector.
\<close>

fun slice_scan :: "SortOrder \<Rightarrow> DocumentMatch \<Rightarrow> DocumentMatch list \<Rightarrow> DocumentMatch list" where
  "slice_scan so d [] = [d]"
| "slice_scan so d (y # ys) =
     (if Compare so d y \<ge> 0 then d # y # ys else y # slice_scan so d ys)"

definition slice_add :: "SortOrder \<Rightarrow> DocumentMatch \<Rightarrow> DocumentMatch list \<Rightarrow> DocumentMatch list" where
  "slice_add so d xs = rev (slice_scan so d (rev xs))"

text \<open>
  Modelled from the spec: the heap store, "a max-heap (where max = worst under sort
  order)". The heap is a binary tree in heap order: no match sorts after the match
  at the root of its subtree. The array layout of the heap is not modelled; push
  and pop are written with a merge of two heaps that keeps the worse root on top.
\<close>

fun heap_merge :: "SortOrder \<Rightarrow> DocumentMatch tree \<Rightarrow> DocumentMatch tree \<Rightarrow> DocumentMatch tree" where
  "heap_merge so Leaf t = t"
| "heap_merge so t Leaf = t"
| "heap_merge so (Node l1 a1 r1) (Node l2 a2 r2) =
     (if Compare so a1 a2 \<ge> 0
      then Node l1 a1 (heap_merge so r1 (Node l2 a2 r2))
      else Node l2 a2 (heap_merge so (Node l1 a1 r1) r2))"

definition heap_push :: "SortOrder \<Rightarrow> DocumentMatch \<Rightarrow> DocumentMatch tree \<Rightarrow> DocumentMatch tree" where
  "heap_push so d t = heap_merge so (Node Leaf d Leaf) t"

text \<open>
  \<open>heap_pops so n t\<close> pops \<open>n\<close> matches, worst first, and writes them into the result
  from its last position down, so the result is in ranking order.
\<close>

fun heap_pops :: "SortOrder \<Rightarrow> nat \<Rightarrow> DocumentMatch tree \<Rightarrow> DocumentMatch list" where
  "heap_pops so 0 t = []"
| "heap_pops so (Suc n) Leaf = []"
| "heap_pops so (Suc n) (Node l a r) = heap_pops so n (heap_merge so l r) @ [a]"

text \<open>
  The two implementations of the interface \<open>collectorStore\<close>; each carries the
  capacity it was allocated with.
\<close>

datatype collectorStore =
  StoreSlice int "DocumentMatch list"
| StoreHeap int "DocumentMatch tree"

definition newStoreSlice :: "int \<Rightarrow> collectorStore" where
  "newStoreSlice capacity = StoreSlice capacity []"

definition newStoreHeap :: "int \<Rightarrow> collectorStore" where
  "newStoreHeap capacity = StoreHeap capacity Leaf"

text \<open>
  Modelled from the spec: \<open>AddNotExceedingSize\<close>. The interface documents it: "Add the
  document, and if the new store size exceeds the provided size the last element
  is removed and returned. If the size has not been exceeded, nil is returned."
  The spec: "On overflow, the worst element is evicted and returned".
\<close>

fun AddNotExceedingSize ::
  "SortOrder \<Rightarrow> collectorStore \<Rightarrow> DocumentMatch \<Rightarrow> int \<Rightarrow> collectorStore \<times> DocumentMatch option" where
  "AddNotExceedingSize so (StoreSlice c xs) d n =
     (let ys = slice_add so d xs in
      if int (length ys) > n then (StoreSlice c (butlast ys), Some (last ys))
      else (StoreSlice c ys, None))"
| "AddNotExceedingSize so (StoreHeap c t) d n =
     (case heap_push so d t of
        Node l a r \<Rightarrow>
          if int (size (Node l a r)) > n then (StoreHeap c (heap_merge so l r), Some a)
          else (StoreHeap c (Node l a r), None)
      | Leaf \<Rightarrow> (StoreHeap c Leaf, None))"

text \<open>
  Modelled from the spec: \<open>Final\<close>, which drains the store in ranking order without
  the entries to be skipped. The constructor's comment ("find the top 'size' hits
  skipping over the first 'skip' hits"), the spec's contract ("after dropping the
  first \<open>skip\<close> ranks") and its scenario 4 agree that the skipped entries are the
  first, best-ranked ones. The fix-up passed by \<open>finalizeResults\<close> never fails, so
  \<open>Final\<close> returns no error. A negative \<open>skip\<close> is outside the spec.
\<close>

fun Final :: "SortOrder \<Rightarrow> collectorStore \<Rightarrow> int \<Rightarrow> DocumentMatch list" where
  "Final so (StoreSlice c xs) sk =
     (if sk \<le> int (length xs) then drop (nat sk) xs else [])"
| "Final so (StoreHeap c t) sk =
     (let n = int (size t) - sk in
      if n \<le> 0 then [] else heap_pops so (nat n) t)"

fun store_kind_is_heap :: "collectorStore \<Rightarrow> bool" where
  "store_kind_is_heap (StoreSlice c xs) = False"
| "store_kind_is_heap (StoreHeap c t) = True"

fun store_capacity :: "collectorStore \<Rightarrow> int" where
  "store_capacity (StoreSlice c xs) = c"
| "store_capacity (StoreHeap c t) = c"

section \<open>The top-N collector\<close>

text \<open>
  \<open>TopNCollector\<close>: the fields \<open>size\<close> and \<open>sort\<close> are named \<open>size_hc\<close> and
  \<open>sort_hc\<close> here. The four pipeline channels and \<open>closePipelines\<close> carry no data of
  their own: a match is handed from stage to stage and \<open>collectSingle\<close> waits for each
  stage before it feeds the next, so the stages of one match run in sequence. The
  model runs the matches one after the other in the order the searcher produced
  them (the single-task form of the pipeline).
\<close>

record TopNCollector =
  size_hc :: int
  skip :: int
  sort_hc :: SortOrder
  results :: "DocumentMatch list"
  reverse :: bool
  backingSize :: int
  store :: collectorStore
  neededFields :: "string list"
  lowestMatchOutsideResults :: "DocumentMatch option"
  searchAfter :: "DocumentMatch option"

text \<open>\<open>PreAllocSizeSkipCap\<close> is a package variable; this is its initial value.\<close>

definition PreAllocSizeSkipCap :: int where
  "PreAllocSizeSkipCap = 1000"

definition CheckDoneEvery :: int where
  "CheckDoneEvery = 1024"

definition switchFromSliceToHeap :: int where
  "switchFromSliceToHeap = 10"

definition newTopNCollector :: "int \<Rightarrow> int \<Rightarrow> SortOrder \<Rightarrow> bool \<Rightarrow> TopNCollector" where
  "newTopNCollector sz sk so rv =
     (let total = wrap64 (sz + sk);
          backing = (if total > PreAllocSizeSkipCap then wrap64 (PreAllocSizeSkipCap + 1)
                     else wrap64 (total + 1));
          st = (if total > switchFromSliceToHeap then newStoreHeap backing
                else newStoreSlice backing)
      in \<lparr>size_hc = sz, skip = sk, sort_hc = so, results = [], reverse = rv,
          backingSize = backing, store = st, neededFields = Fields so,
          lowestMatchOutsideResults = None, searchAfter = None\<rparr>)"



text \<open>
  The body of \<open>startComparePipeline\<close> for one match \<open>d\<close> (with \<open>d.Err = nil\<close>; a match
  with an error never gets this far, see \<open>collectSingle\<close>). Returning matches to
  the \<open>DocumentMatchPool\<close> is not modelled.
\<close>

definition startComparePipeline :: "TopNCollector \<Rightarrow> DocumentMatch \<Rightarrow> TopNCollector" where
  "startComparePipeline hc d =
     (let hc1 = (case searchAfter hc of
                   None \<Rightarrow> hc
                 | Some a \<Rightarrow> hc\<lparr>searchAfter := Some (a\<lparr>HitNumber := HitNumber d\<rparr>)\<rparr>)
      in
      if (case searchAfter hc1 of
            None \<Rightarrow> False
          | Some a \<Rightarrow> Compare (sort_hc hc1) d a \<le> 0)
      then hc1
      else if (case lowestMatchOutsideResults hc1 of
                 None \<Rightarrow> False
               | Some l \<Rightarrow> Compare (sort_hc hc1) d l \<ge> 0)
      then hc1
      else
        (case AddNotExceedingSize (sort_hc hc1) (store hc1) d
                (wrap64 (size_hc hc1 + skip hc1)) of
           (st, None) \<Rightarrow> hc1\<lparr>store := st\<rparr>
         | (st, Some removed) \<Rightarrow>
             (case lowestMatchOutsideResults hc1 of
                None \<Rightarrow> hc1\<lparr>store := st, lowestMatchOutsideResults := Some removed\<rparr>
              | Some l \<Rightarrow>
                  if Compare (sort_hc hc1) removed l < 0
                  then hc1\<lparr>store := st, lowestMatchOutsideResults := Some removed\<rparr>
                  else hc1\<lparr>store := st\<rparr>)))"

text \<open>
  Modelled from the spec: the root aggregation bucket. \<open>Consume\<close> folds a match into
  the bucket; the model records the matches consumed, in order. \<open>Finish\<close> closes it.
\<close>

record Bucket =
  consumed :: "DocumentMatch list"
  finished :: bool

definition NewBucket :: Bucket where
  "NewBucket = \<lparr>consumed = [], finished = False\<rparr>"

definition Consume :: "Bucket \<Rightarrow> DocumentMatch \<Rightarrow> Bucket" where
  "Consume b d = b\<lparr>consumed := consumed b @ [d]\<rparr>"

definition Finish :: "Bucket \<Rightarrow> Bucket" where
  "Finish b = b\<lparr>finished := True\<rparr>"

text \<open>
  The body of \<open>startLoadDocValuesPipeline\<close> for one match: the document values are
  loaded when some field is needed, and the outcome is stored in \<open>d.Err\<close>.
\<close>

definition startLoadDocValuesPipeline :: "TopNCollector \<Rightarrow> DocumentMatch \<Rightarrow> DocumentMatch" where
  "startLoadDocValuesPipeline hc d =
     (if length (neededFields hc) > 0 then d\<lparr>Err := LoadResult d\<rparr> else d)"

text \<open>
  \<open>collectSingle\<close> on the collector and the bucket: load the document values and
  return the match's error if there is one; else compute the sort key, consume the
  match into the bucket, compare and store.
\<close>

definition collectSingle ::
  "TopNCollector \<Rightarrow> Bucket \<Rightarrow> DocumentMatch \<Rightarrow> error option \<times> TopNCollector \<times> Bucket" where
  "collectSingle hc b d0 =
     (let d1 = startLoadDocValuesPipeline hc d0 in
      case Err d1 of
        Some e \<Rightarrow> (Some e, hc, b)
      | None \<Rightarrow>
          (let d2 = Compute (sort_hc hc) d1;
               b' = Consume b d2;
               hc' = startComparePipeline hc d2
           in (None, hc', b')))"

text \<open>
  The cancellation token: \<open>ctx t\<close> is \<open>ctx.Err()\<close> at time \<open>t\<close>, \<open>None\<close> while the token is
  not signalled. Time 0 is the check before the first \<open>searcher.Next\<close>; time \<open>i + 1\<close>
  is the moment the task of the \<open>i\<close>-th match (from 0) runs.
\<close>

type_synonym go_ctx = "nat \<Rightarrow> error option"

text \<open>
  A searcher with a finite stream: \<open>Next\<close> returns the matches one by one, then
  \<open>(nil, failure)\<close>.
\<close>

record Searcher =
  matches :: "DocumentMatch list"
  failure :: "error option"

text \<open>
  The state of the loop of \<open>Collect\<close>: the collector, the bucket, the counter
  \<open>hitNumber\<close> and the errors the \<open>multierror.Group\<close> has gathered.
\<close>

record collect_state =
  cs_hc :: TopNCollector
  cs_bucket :: Bucket
  hitNumber :: int
  errs :: "error list"

text \<open>
  The task \<open>Collect\<close> starts for the match \<open>n\<close>, run at time \<open>t\<close>: when the counter is a
  multiple of \<open>CheckDoneEvery\<close> the token is polled, and a signalled token ends the
  task with \<open>ctx.Err()\<close> before the counter is incremented.
\<close>

definition collect_task :: "go_ctx \<Rightarrow> nat \<Rightarrow> collect_state \<Rightarrow> DocumentMatch \<Rightarrow> collect_state" where
  "collect_task ctx t st n =
     (if hitNumber st mod CheckDoneEvery = 0 \<and> ctx t \<noteq> None
      then st\<lparr>errs := errs st @ [the (ctx t)]\<rparr>
      else
        (let h = wrap64 (hitNumber st + 1) in
         case collectSingle (cs_hc st) (cs_bucket st) (n\<lparr>HitNumber := h\<rparr>) of
           (None, hc', b') \<Rightarrow> st\<lparr>cs_hc := hc', cs_bucket := b', hitNumber := h\<rparr>
         | (Some e, hc', b') \<Rightarrow>
             st\<lparr>cs_hc := hc', cs_bucket := b', hitNumber := h, errs := errs st @ [e]\<rparr>))"

fun collect_loop :: "go_ctx \<Rightarrow> nat \<Rightarrow> collect_state \<Rightarrow> DocumentMatch list \<Rightarrow> collect_state" where
  "collect_loop ctx t st [] = st"
| "collect_loop ctx t st (n # ns) = collect_loop ctx (Suc t) (collect_task ctx t st n) ns"

text \<open>The loop of \<open>finalizeResults\<close> that reverses the results in place.\<close>

function reverse_loop :: "int \<Rightarrow> int \<Rightarrow> 'a list \<Rightarrow> 'a list" where
  "reverse_loop i j xs =
     (if i < j
      then reverse_loop (i + 1) (j - 1) (xs[nat i := xs ! nat j, nat j := xs ! nat i])
      else xs)"
  by pat_completeness auto
termination
  by (relation "measure (\<lambda>(i, j, xs). nat (j - i))") auto

definition finalizeResults :: "TopNCollector \<Rightarrow> TopNCollector" where
  "finalizeResults hc =
     (let rs = Final (sort_hc hc) (store hc) (skip hc) in
      hc\<lparr>results := (if reverse hc then reverse_loop 0 (int (length rs) - 1) rs else rs)\<rparr>)"

record TopNIterator =
  it_results :: "DocumentMatch list"
  it_bucket :: Bucket

text \<open>
  The fields needed: those of the sort order and those of the aggregations,
  without repeats when there is more than one (the source rebuilds the list from
  a map, in no particular order; the model keeps the order of first occurrence).
\<close>

definition needed_fields :: "string list \<Rightarrow> string list \<Rightarrow> string list" where
  "needed_fields fs aggs_fields =
     (let all = fs @ aggs_fields in if length all > 1 then remdups all else all)"

text \<open>
  \<open>Collect\<close> (named \<open>Collect_TopN\<close> here): the aggregations are given by the fields
  they need. The result is
  the error returned, or the iterator.
\<close>

definition collect_init :: "TopNCollector \<Rightarrow> string list \<Rightarrow> collect_state" where
  "collect_init hc aggs_fields =
     \<lparr>cs_hc = hc\<lparr>neededFields := needed_fields (neededFields hc) aggs_fields\<rparr>,
      cs_bucket = NewBucket, hitNumber = 0, errs = []\<rparr>"

definition Collect_TopN ::
  "TopNCollector \<Rightarrow> go_ctx \<Rightarrow> string list \<Rightarrow> Searcher \<Rightarrow> error + TopNIterator" where
  "Collect_TopN hc ctx aggs_fields searcher =
     (case ctx 0 of
        Some e \<Rightarrow> Inl e
      | None \<Rightarrow>
          (let st = collect_loop ctx 1 (collect_init hc aggs_fields) (matches searcher) in
           case failure searcher of
             Some e \<Rightarrow> Inl e
           | None \<Rightarrow>
               if errs st \<noteq> [] then Inl (MultiError (errs st))
               else
                 (let b = Finish (cs_bucket st);
                      hc' = finalizeResults (cs_hc st)
                  in Inr \<lparr>it_results = results hc', it_bucket = b\<rparr>)))"

section \<open>Ranking: the reference the results are compared with\<close>

text \<open>
  \<open>keyed so d\<close>: the sort key vector of \<open>d\<close> has one entry per sort term, as
  \<open>Compute\<close> builds it. \<open>separated so A\<close>: no two different matches of \<open>A\<close> compare
  equal; matches with different hit numbers never do.
\<close>

definition keyed :: "SortOrder \<Rightarrow> DocumentMatch \<Rightarrow> bool" where
  "keyed so d = (length (SortValue d) = length so)"


text \<open>\<open>ranked so xs\<close>: the list is in ranking order, best first.\<close>

definition ranked :: "SortOrder \<Rightarrow> DocumentMatch list \<Rightarrow> bool" where
  "ranked so xs = sorted_wrt (\<lambda>a b. Compare so a b \<le> 0) xs"

text \<open>
  The full matched set ordered under the sort order: insertion sort with
  \<open>Compare\<close>, the reference the collector's results are slices of.
\<close>

fun insert_sorted :: "SortOrder \<Rightarrow> DocumentMatch \<Rightarrow> DocumentMatch list \<Rightarrow> DocumentMatch list" where
  "insert_sorted so d [] = [d]"
| "insert_sorted so d (x # xs) =
     (if Compare so d x < 0 then d # x # xs else x # insert_sorted so d xs)"

definition sort_matches :: "SortOrder \<Rightarrow> DocumentMatch list \<Rightarrow> DocumentMatch list" where
  "sort_matches so ds = fold (insert_sorted so) ds []"

text \<open>The entries of a store in ranking order, and the invariant of each store.\<close>

fun heap_ordered :: "SortOrder \<Rightarrow> DocumentMatch tree \<Rightarrow> bool" where
  "heap_ordered so Leaf = True"
| "heap_ordered so (Node l a r) =
     ((\<forall>x \<in> set_tree l \<union> set_tree r. Compare so x a \<le> 0)
      \<and> heap_ordered so l \<and> heap_ordered so r)"

fun store_entries :: "SortOrder \<Rightarrow> collectorStore \<Rightarrow> DocumentMatch list" where
  "store_entries so (StoreSlice c xs) = xs"
| "store_entries so (StoreHeap c t) = heap_pops so (size t) t"

fun store_ok :: "SortOrder \<Rightarrow> collectorStore \<Rightarrow> bool" where
  "store_ok so (StoreSlice c xs) = ranked so xs"
| "store_ok so (StoreHeap c t) = heap_ordered so t"




section \<open>The invariant of the compare stage\<close>



section \<open>MultiSearch: several searchers behind one channel\<close>

text \<open>
  A Go panic is a result of its own: it is not an \<open>error\<close> a caller receives.
\<close>

datatype panic = AssignmentToEntryInNilMap | IntegerDivideByZero

text \<open>
  \<open>collector.CollectorConfig\<close>: of the configuration \<open>collectAllDocuments\<close> reads
  \<open>BackingSize\<close> (for the size of the search context only) and \<open>NeededFields\<close>.
\<close>

record CollectorConfig =
  BackingSize :: int
  NeededFields :: "string list"

text \<open>
  The task \<open>errs.Go\<close> starts for searcher \<open>i\<close>: not started yet, running with the
  matches its searcher has still to return, or returned.
\<close>

datatype gstate = Pending | Running "DocumentMatch list" | Done

text \<open>
  The state of a \<open>MultiSearcherList\<close> and of \<open>collectAllDocuments\<close>, which runs beside
  it: the searchers, the buffered channel \<open>docChan\<close> (a queue, oldest first, of capacity
  \<open>docChan_cap\<close>), whether it has been closed, the index \<open>i\<close> of the loop over the
  searchers, the tasks of the group, the first error of the group (what \<open>errs.Wait\<close>
  returns) and the lines logged. Each match in the channel is tagged with the index of
  the searcher it came from; \<open>received\<close> lists what \<open>Next\<close> has returned so far and
  \<open>ended\<close> is set once \<open>Next\<close> has returned a nil match. The tags, \<open>received\<close> and
  \<open>ended\<close> only record the run: no step depends on them, except that the caller stops
  calling \<open>Next\<close> after a nil match.
\<close>

record multi_state =
  searchers :: "Searcher list"
  docChan :: "(nat \<times> DocumentMatch) list"
  docChan_cap :: nat
  docChan_closed :: bool
  next_go :: nat
  tasks :: "gstate list"
  group_err :: "error option"
  logged :: "error list"
  received :: "(nat \<times> DocumentMatch) list"
  ended :: bool

text \<open>\<open>errs.SetLimit(1000)\<close>: at most 1000 tasks of the group are active at a time.\<close>

definition go_limit :: nat where
  "go_limit = 1000"

fun is_running :: "gstate \<Rightarrow> bool" where
  "is_running (Running r) = True"
| "is_running g = False"

text \<open>
  \<open>NewMultiSearcherList\<close> makes the channel with capacity \<open>len(searchers)*2\<close> and starts
  \<open>collectAllDocuments\<close>, which first divides by \<open>len(m.searchers)\<close>: with no searcher
  that is an integer division by zero, a panic of the program.
\<close>

definition NewMultiSearcherList :: "Searcher list \<Rightarrow> CollectorConfig \<Rightarrow> panic + multi_state" where
  "NewMultiSearcherList ss cc =
     (if length ss = 0 then Inl IntegerDivideByZero
      else Inr \<lparr>searchers = ss, docChan = [], docChan_cap = length ss * 2,
                docChan_closed = False, next_go = 0, tasks = replicate (length ss) Pending,
                group_err = None, logged = [], received = [], ended = False\<rparr>)"

text \<open>
  \<open>Next\<close> is \<open>return <-m.docChan, nil\<close>: the oldest match of the channel; the nil match
  when the channel is closed and empty; and it blocks (\<open>None\<close>) while the channel is
  empty and open. The error returned is \<open>nil\<close> in every case.
\<close>

definition Next_msl ::
  "multi_state \<Rightarrow> ((DocumentMatch option \<times> error option) \<times> multi_state) option" where
  "Next_msl m =
     (case docChan m of
        (i, d) # rest \<Rightarrow>
          Some ((Some d, None), m\<lparr>docChan := rest, received := received m @ [(i, d)]\<rparr>)
      | [] \<Rightarrow>
          if docChan_closed m then Some ((None, None), m\<lparr>ended := True\<rparr>) else None)"

text \<open>
  A task returns \<open>e\<close>: the group keeps the first non-nil error returned and cancels
  nothing (the group is a plain \<open>errgroup.Group{}\<close>, without a context).
\<close>

definition task_return :: "nat \<Rightarrow> error option \<Rightarrow> multi_state \<Rightarrow> multi_state" where
  "task_return i e m =
     m\<lparr>tasks := (tasks m)[i := Done],
       group_err := (case group_err m of None \<Rightarrow> e | Some x \<Rightarrow> Some x)\<rparr>"

text \<open>
  The steps of the concurrent program, chosen by a scheduler; a step that is blocked
  or not enabled gives \<open>None\<close>.

  \<^item> \<open>GoNext\<close>: the loop calls \<open>errs.Go\<close> for the next searcher; it blocks while
    \<open>go_limit\<close> tasks are active.
  \<^item> \<open>Task i\<close>: task \<open>i\<close> runs to its next channel operation or return. When its
    searcher has no further match it returns the searcher's error (\<open>nil\<close> at a regular
    end). Otherwise, if fields are needed and loading them fails, it returns that error;
    else it sends the match, blocking while the channel is full.
  \<^item> \<open>WaitClose\<close>: \<open>errs.Wait()\<close> returns, after every task has been started and has
    returned; its error, if any, is logged, and the channel is closed.
  \<^item> \<open>CallNext\<close>: the collector calls \<open>Next\<close>.
\<close>

datatype action = GoNext | Task nat | WaitClose | CallNext

definition multi_step :: "CollectorConfig \<Rightarrow> action \<Rightarrow> multi_state \<Rightarrow> multi_state option" where
  "multi_step cc a m =
     (case a of
        GoNext \<Rightarrow>
          if next_go m < length (searchers m)
             \<and> length (filter is_running (tasks m)) < go_limit
          then Some (m\<lparr>tasks := (tasks m)[next_go m := Running (matches (searchers m ! next_go m))],
                       next_go := Suc (next_go m)\<rparr>)
          else None
      | Task i \<Rightarrow>
          if i < length (tasks m) then
            (case tasks m ! i of
               Running [] \<Rightarrow> Some (task_return i (failure (searchers m ! i)) m)
             | Running (d # rest) \<Rightarrow>
                 if length (NeededFields cc) > 0 \<and> LoadResult d \<noteq> None
                 then Some (task_return i (LoadResult d) m)
                 else if length (docChan m) < docChan_cap m
                 then Some (m\<lparr>docChan := docChan m @ [(i, d)],
                              tasks := (tasks m)[i := Running rest]\<rparr>)
                 else None
             | Pending \<Rightarrow> None
             | Done \<Rightarrow> None)
          else None
      | WaitClose \<Rightarrow>
          if next_go m = length (searchers m) \<and> filter is_running (tasks m) = []
             \<and> \<not> docChan_closed m
          then Some (m\<lparr>docChan_closed := True,
                       logged := (case group_err m of None \<Rightarrow> logged m
                                  | Some e \<Rightarrow> logged m @ [e])\<rparr>)
          else None
      | CallNext \<Rightarrow>
          if ended m then None else map_option snd (Next_msl m))"

fun multi_run :: "CollectorConfig \<Rightarrow> action list \<Rightarrow> multi_state \<Rightarrow> multi_state option" where
  "multi_run cc [] m = Some m"
| "multi_run cc (a # as) m =
     (case multi_step cc a m of None \<Rightarrow> None | Some m' \<Rightarrow> multi_run cc as m')"

text \<open>
  \<open>MultiSearch\<close>: \<open>req.Searcher\<close> is called for each reader, and the first error is
  returned; then the list is built and the collector collects from it. \<open>rs\<close> holds what
  \<open>req.Searcher\<close> returns for each reader and \<open>acts\<close> is the schedule of the concurrent
  part, run until \<open>Next\<close> has returned the nil match. The collector sees the list as
  a searcher that returns the matches received, in the order received, and never an
  error. The result is \<open>None\<close> when the schedule is not one of a complete run.
\<close>

fun open_searchers :: "(error + Searcher) list \<Rightarrow> error + Searcher list" where
  "open_searchers [] = Inr []"
| "open_searchers (Inl e # rs) = Inl e"
| "open_searchers (Inr s # rs) =
     (case open_searchers rs of Inl e \<Rightarrow> Inl e | Inr ss \<Rightarrow> Inr (s # ss))"

definition MultiSearch ::
  "go_ctx \<Rightarrow> TopNCollector \<Rightarrow> string list \<Rightarrow> CollectorConfig \<Rightarrow> (error + Searcher) list
     \<Rightarrow> action list \<Rightarrow> (panic + (error + TopNIterator)) option" where
  "MultiSearch ctx collector aggs cc rs acts =
     (case open_searchers rs of
        Inl e \<Rightarrow> Some (Inr (Inl e))
      | Inr ss \<Rightarrow>
          (case NewMultiSearcherList ss cc of
             Inl p \<Rightarrow> Some (Inl p)
           | Inr m0 \<Rightarrow>
               (case multi_run cc acts m0 of
                  None \<Rightarrow> None
                | Some m \<Rightarrow>
                    if ended m
                    then Some (Inr (Collect_TopN collector ctx aggs
                                 \<lparr>matches = map snd (received m), failure = None\<rparr>))
                    else None)))"

subsection \<open>What a run delivers\<close>

text \<open>
  \<open>from_searcher i xs\<close>: the matches of \<open>xs\<close> that came from searcher \<open>i\<close>, in order.
  \<open>delivered cc ms\<close>: the matches a task sends when its searcher returns \<open>ms\<close>, that
  is all of them up to the first whose fields fail to load. \<open>todo\<close>: what a task has
  still to send. \<open>task_error\<close>: the error a task returns in the end.
\<close>

definition from_searcher :: "nat \<Rightarrow> (nat \<times> DocumentMatch) list \<Rightarrow> DocumentMatch list" where
  "from_searcher i xs = map snd (filter (\<lambda>x. fst x = i) xs)"

definition delivered :: "CollectorConfig \<Rightarrow> DocumentMatch list \<Rightarrow> DocumentMatch list" where
  "delivered cc ms = takeWhile (\<lambda>d. \<not> (length (NeededFields cc) > 0 \<and> LoadResult d \<noteq> None)) ms"

fun todo :: "CollectorConfig \<Rightarrow> Searcher \<Rightarrow> gstate \<Rightarrow> DocumentMatch list" where
  "todo cc s Pending = delivered cc (matches s)"
| "todo cc s (Running r) = delivered cc r"
| "todo cc s Done = []"

fun err_after :: "CollectorConfig \<Rightarrow> DocumentMatch list \<Rightarrow> error option \<Rightarrow> error option" where
  "err_after cc [] f = f"
| "err_after cc (d # ds) f =
     (if length (NeededFields cc) > 0 \<and> LoadResult d \<noteq> None then LoadResult d
      else err_after cc ds f)"

definition task_error :: "CollectorConfig \<Rightarrow> Searcher \<Rightarrow> error option" where
  "task_error cc s = err_after cc (matches s) (failure s)"

text \<open>
  The invariants of a run: \<open>multi_inv\<close> for the channel, the tasks and the matches,
  \<open>err_inv\<close> for the errors and the log; and the measure that every step decreases.
\<close>

definition multi_inv :: "CollectorConfig \<Rightarrow> Searcher list \<Rightarrow> multi_state \<Rightarrow> bool" where
  "multi_inv cc ss m =
     (searchers m = ss \<and> length (tasks m) = length ss \<and> next_go m \<le> length ss
      \<and> docChan_cap m = 2 * length ss \<and> 0 < length ss
      \<and> (\<forall>i<length ss. (tasks m ! i = Pending) = (next_go m \<le> i))
      \<and> length (docChan m) \<le> docChan_cap m
      \<and> length (filter is_running (tasks m)) \<le> go_limit
      \<and> (\<forall>i<length ss. from_searcher i (received m) @ from_searcher i (docChan m)
              @ todo cc (ss ! i) (tasks m ! i) = delivered cc (matches (ss ! i)))
      \<and> (docChan_closed m \<longrightarrow> next_go m = length ss \<and> filter is_running (tasks m) = [])
      \<and> (ended m \<longrightarrow> docChan_closed m \<and> docChan m = []))"

definition err_inv :: "CollectorConfig \<Rightarrow> Searcher list \<Rightarrow> multi_state \<Rightarrow> bool" where
  "err_inv cc ss m =
     ((\<forall>i<length ss. \<forall>r. tasks m ! i = Running r \<longrightarrow>
          err_after cc r (failure (ss ! i)) = task_error cc (ss ! i))
      \<and> (\<forall>e. group_err m = Some e \<longrightarrow>
            (\<exists>i<length ss. tasks m ! i = Done \<and> task_error cc (ss ! i) = Some e))
      \<and> (group_err m = None \<longrightarrow>
            (\<forall>i<length ss. tasks m ! i = Done \<longrightarrow> task_error cc (ss ! i) = None))
      \<and> logged m = (if docChan_closed m
                    then (case group_err m of None \<Rightarrow> [] | Some e \<Rightarrow> [e]) else []))"

fun weight :: "gstate \<Rightarrow> Searcher \<Rightarrow> nat" where
  "weight Pending s = 2 * length (matches s) + 2"
| "weight (Running r) s = 2 * length r + 1"
| "weight Done s = 0"

definition multi_measure :: "multi_state \<Rightarrow> nat" where
  "multi_measure m =
     sum_list (map (\<lambda>i. weight (tasks m ! i) (searchers m ! i)) [0..<length (tasks m)])
     + length (docChan m) + (if docChan_closed m then 0 else 1) + (if ended m then 0 else 1)"

section \<open>The index configuration\<close>

text \<open>
  A Go value of a type that is not modelled further (a function, a channel, an
  interface or a struct of another package): \<open>nil\<close>, or a reference to the value.
\<close>

datatype go_value = GoNil | GoRef nat

text \<open>
  \<open>segment.Field\<close> is an interface of another module; of a field only its name
  matters here.
\<close>

record Field =
  Name :: string
  field_body :: string

text \<open>
  Go maps are references: a \<open>Config\<close> holds the address of its \<open>virtualFields\<close> map
  (\<open>None\<close> for the nil map), and the maps themselves live in a store. Copying a
  \<open>Config\<close> copies the address, not the map.
\<close>

type_synonym addr = nat

type_synonym vf_store = "addr \<Rightarrow> (string \<rightharpoonup> Field list)"

record Config =
  SegmentType :: string
  SegmentVersion :: "32 word"
  supportedSegmentPlugins :: "addr option"
  UnsafeBatch :: bool
  EventCallback :: go_value
  AsyncError :: go_value
  MergePlanOptions :: go_value
  NumAnalysisWorkers :: int
  AnalysisChan :: go_value
  GoFunc :: go_value
  DeletionPolicy :: go_value
  Directory :: go_value
  NormCalc :: go_value
  MergeBufferSize :: int
  OptimizeConjunction :: bool
  OptimizeConjunctionUnadorned :: bool
  OptimizeDisjunctionUnadorned :: bool
  OptimizeDisjunctionUnadornedMinChildCardinality :: int
  MinSegmentsForInMemoryMerge :: int
  PersisterNapTimeMSec :: int
  PersisterNapUnderNumFiles :: int
  MemoryPressurePauseThreshold :: int
  virtualFields :: "addr option"

definition WithPersisterNapTimeMSec :: "Config \<Rightarrow> int \<Rightarrow> Config" where
  "WithPersisterNapTimeMSec config napTime = config\<lparr>PersisterNapTimeMSec := napTime\<rparr>"

text \<open>
  \<open>config.virtualFields[field.Name()] = append(config.virtualFields[field.Name()], field)\<close>:
  reading a missing key gives the empty slice; writing through the nil map panics.
\<close>

definition WithVirtualField :: "Config \<Rightarrow> Field \<Rightarrow> vf_store \<Rightarrow> panic + (Config \<times> vf_store)" where
  "WithVirtualField config field h =
     (case virtualFields config of
        None \<Rightarrow> Inl AssignmentToEntryInNilMap
      | Some a \<Rightarrow>
          (let old = (case h a (Name field) of None \<Rightarrow> [] | Some fs \<Rightarrow> fs)
           in Inr (config, h(a := (h a)(Name field \<mapsto> old @ [field])))))"

definition WithNormCalc :: "Config \<Rightarrow> go_value \<Rightarrow> Config" where
  "WithNormCalc config calc = config\<lparr>NormCalc := calc\<rparr>"

text \<open>The virtual fields a configuration has under a name, read through its map.\<close>

definition virtual_fields_of :: "Config \<Rightarrow> vf_store \<Rightarrow> string \<Rightarrow> Field list" where
  "virtual_fields_of config h name =
     (case virtualFields config of
        None \<Rightarrow> []
      | Some a \<Rightarrow> (case h a name of None \<Rightarrow> [] | Some fs \<Rightarrow> fs))"


section \<open>Example data\<close>

text \<open>
  A searcher's raw match for document \<open>n\<close>, a sort order with one ascending term
  that evaluates to the document number as one byte, and the match as the stages
  see it once it has hit number \<open>h\<close>.
\<close>

definition mk :: "nat \<Rightarrow> DocumentMatch" where
  "mk n = \<lparr>Number = n, HitNumber = 0, SortValue = [], Err = None, LoadResult = None\<rparr>"

definition by_number :: SortOrder where
  "by_number =
     [\<lparr>desc = False, sort_fields = [], sort_eval = (\<lambda>d. [word_of_nat (Number d)])\<rparr>]"


definition never_done :: go_ctx where
  "never_done = (\<lambda>t. None)"







text \<open>
  A collector for the top 2 after skipping 1, and its state once the loop of
  \<open>Collect\<close> has run over the four matches.
\<close>

definition top3 :: TopNCollector where
  "top3 = newTopNCollector 2 1 by_number False"


text \<open>
  Two searchers behind one channel: the first returns one match, the second two and
  then fails. \<open>one_schedule\<close> is a complete run of them, \<open>two_ended\<close> its last state.
\<close>

definition good_searcher :: Searcher where
  "good_searcher = \<lparr>matches = [mk 3], failure = None\<rparr>"

definition bad_searcher :: Searcher where
  "bad_searcher = \<lparr>matches = [mk 1, mk 2], failure = Some (Failure ''read'')\<rparr>"

definition no_fields :: CollectorConfig where
  "no_fields = \<lparr>BackingSize = 3, NeededFields = []\<rparr>"

definition two_started :: multi_state where
  "two_started =
     \<lparr>searchers = [good_searcher, bad_searcher], docChan = [], docChan_cap = 4,
      docChan_closed = False, next_go = 0, tasks = [Pending, Pending],
      group_err = None, logged = [], received = [], ended = False\<rparr>"

definition one_schedule :: "action list" where
  "one_schedule = [GoNext, GoNext, Task 1, Task 0, Task 1, Task 1, Task 0, WaitClose,
                   CallNext, CallNext, CallNext, CallNext]"

definition two_ended :: multi_state where
  "two_ended =
     \<lparr>searchers = [good_searcher, bad_searcher], docChan = [], docChan_cap = 4,
      docChan_closed = True, next_go = 2, tasks = [Done, Done],
      group_err = Some (Failure ''read''), logged = [Failure ''read''],
      received = [(1, mk 1), (0, mk 3), (1, mk 2)], ended = True\<rparr>"

text \<open>
  A configuration with a map of virtual fields at address 1, an empty store of maps,
  and a virtual field.
\<close>

definition some_config :: Config where
  "some_config =
     \<lparr>SegmentType = ''ice'', SegmentVersion = 1, supportedSegmentPlugins = Some 0,
      UnsafeBatch = False, EventCallback = GoNil, AsyncError = GoNil,
      MergePlanOptions = GoRef 0, NumAnalysisWorkers = 4, AnalysisChan = GoRef 1,
      GoFunc = GoRef 2, DeletionPolicy = GoRef 3, Directory = GoNil, NormCalc = GoNil,
      MergeBufferSize = 1048576, OptimizeConjunction = True,
      OptimizeConjunctionUnadorned = True, OptimizeDisjunctionUnadorned = True,
      OptimizeDisjunctionUnadornedMinChildCardinality = 256,
      MinSegmentsForInMemoryMerge = 2, PersisterNapTimeMSec = 0,
      PersisterNapUnderNumFiles = 1000, MemoryPressurePauseThreshold = 9223372036854775807,
      virtualFields = Some 1\<rparr>"

definition all_field :: Field where
  "all_field = \<lparr>Name = ''_all'', field_body = ''composite''\<rparr>"

definition no_virtual_fields :: vf_store where
  "no_virtual_fields = (\<lambda>a. Map.empty)"


text \<open>The zero value of \<open>Config\<close>: every field zero, both maps \<open>nil\<close>.\<close>

definition zero_config :: Config where
  "zero_config =
     \<lparr>SegmentType = [], SegmentVersion = 0, supportedSegmentPlugins = None,
      UnsafeBatch = False, EventCallback = GoNil, AsyncError = GoNil,
      MergePlanOptions = GoNil, NumAnalysisWorkers = 0, AnalysisChan = GoNil,
      GoFunc = GoNil, DeletionPolicy = GoNil, Directory = GoNil, NormCalc = GoNil,
      MergeBufferSize = 0, OptimizeConjunction = False,
      OptimizeConjunctionUnadorned = False, OptimizeDisjunctionUnadorned = False,
      OptimizeDisjunctionUnadornedMinChildCardinality = 0,
      MinSegmentsForInMemoryMerge = 0, PersisterNapTimeMSec = 0,
      PersisterNapUnderNumFiles = 0, MemoryPressurePauseThreshold = 0,
      virtualFields = None\<rparr>"

section \<open>Properties of the comparison\<close>

lemma bytes_compare_range: "bytes_compare a b = - 1 \<or> bytes_compare a b = 0 \<or> bytes_compare a b = 1"
  by (induction a b rule: bytes_compare.induct) auto

lemma bytes_compare_sym: "bytes_compare b a = - bytes_compare a b"
  by (induction a b rule: bytes_compare.induct) auto

lemma bytes_compare_zero: "bytes_compare a b = 0 \<longleftrightarrow> a = b"
  by (induction a b rule: bytes_compare.induct) auto

lemma bytes_compare_trans:
  "bytes_compare a b < 0 \<Longrightarrow> bytes_compare b c < 0 \<Longrightarrow> bytes_compare a c < 0"
proof (induction a b arbitrary: c rule: bytes_compare.induct)
  case 1
  then show ?case by simp
next
  case (2 y ys)
  then show ?case by (cases c) (auto split: if_splits)
next
  case (3 x xs)
  then show ?case by simp
next
  case (4 x xs y ys)
  then show ?case by (cases c) (auto split: if_splits)
qed

lemma compare_values_sym: "compare_values so b a = - compare_values so a b"
proof (induction so a b rule: compare_values.induct)
  case (1 s ss iv ivs jv jvs)
  then show ?case using bytes_compare_sym [of jv iv] by (auto simp: Let_def)
qed auto


lemma compare_values_trans:
  "length a = length so \<Longrightarrow> length b = length so \<Longrightarrow> length c = length so \<Longrightarrow>
   compare_values so a b \<le> 0 \<Longrightarrow> compare_values so b c \<le> 0 \<Longrightarrow>
   compare_values so a c \<le> 0 \<and>
   (compare_values so a b < 0 \<or> compare_values so b c < 0 \<longrightarrow> compare_values so a c < 0)"
proof (induction so arbitrary: a b c)
  case Nil
  then show ?case by simp
next
  case (Cons s ss)
  obtain a0 as where a: "a = a0 # as" using Cons.prems(1) by (cases a) auto
  obtain b0 bs where b: "b = b0 # bs" using Cons.prems(2) by (cases b) auto
  obtain c0 cs where c: "c = c0 # cs" using Cons.prems(3) by (cases c) auto
  have la: "length as = length ss" "length bs = length ss" "length cs = length ss"
    using Cons.prems a b c by auto
  note IH = Cons.IH [OF la]
  consider (e1) "bytes_compare a0 b0 = 0" | (e2) "bytes_compare a0 b0 \<noteq> 0" "bytes_compare b0 c0 = 0"
    | (ne) "bytes_compare a0 b0 \<noteq> 0" "bytes_compare b0 c0 \<noteq> 0" by blast
  then show ?case
  proof cases
    case e1
    then have "a0 = b0" by (simp add: bytes_compare_zero)
    then show ?thesis using Cons.prems(4,5) IH bytes_compare_zero [of b0 c0] bytes_compare_zero [of b0 b0] unfolding a b c
      by (auto simp: Let_def split: if_splits)
  next
    case e2
    then have "b0 = c0" by (simp add: bytes_compare_zero)
    then show ?thesis using Cons.prems(4,5) IH e2 bytes_compare_zero [of c0 c0] unfolding a b c
      by (auto simp: Let_def split: if_splits)
  next
    case ne
    have r1: "bytes_compare a0 b0 = - 1 \<or> bytes_compare a0 b0 = 1"
      using bytes_compare_range [of a0 b0] ne by auto
    have r2: "bytes_compare b0 c0 = - 1 \<or> bytes_compare b0 c0 = 1"
      using bytes_compare_range [of b0 c0] ne by auto
    have t1: "bytes_compare a0 b0 < 0 \<Longrightarrow> bytes_compare b0 c0 < 0 \<Longrightarrow> bytes_compare a0 c0 < 0"
      by (rule bytes_compare_trans)
    have t2: "bytes_compare a0 b0 > 0 \<Longrightarrow> bytes_compare b0 c0 > 0 \<Longrightarrow> bytes_compare a0 c0 > 0"
      using bytes_compare_trans [of c0 b0 a0] bytes_compare_sym [of b0 a0]
        bytes_compare_sym [of c0 b0] bytes_compare_sym [of c0 a0] by auto
    show ?thesis using Cons.prems(4,5) ne r1 r2 t1 t2 unfolding a b c
      by (auto simp: Let_def split: if_splits)
  qed
qed

lemma Compare_sym: "Compare so b a = - Compare so a b"
  using compare_values_sym [of so "SortValue b" "SortValue a"]
  by (auto simp: Compare_def Let_def)

lemma Compare_refl: "Compare so a a = 0"
  using Compare_sym [of so a a] by simp


lemma Compare_le_trans:
  assumes "keyed so a" "keyed so b" "keyed so c"
    and "Compare so a b \<le> 0" "Compare so b c \<le> 0"
  shows "Compare so a c \<le> 0"
  using assms compare_values_trans [of "SortValue a" so "SortValue b" "SortValue c"]
  by (auto simp: Compare_def Let_def keyed_def split: if_splits)


lemma Compare_le_lt_trans:
  assumes "keyed so a" "keyed so b" "keyed so c"
    and "Compare so a b \<le> 0" "Compare so b c < 0"
  shows "Compare so a c < 0"
  using assms compare_values_trans [of "SortValue a" so "SortValue b" "SortValue c"]
  by (auto simp: Compare_def Let_def keyed_def split: if_splits)




subsection \<open>Insertion in ranking order\<close>


lemma mset_insert_sorted: "mset (insert_sorted so d xs) = add_mset d (mset xs)"
  by (induction xs) auto




section \<open>Ranking and the stores\<close>

lemma sort_matches_snoc: "sort_matches so (ds @ [d]) = insert_sorted so d (sort_matches so ds)"
  by (simp add: sort_matches_def)

lemma mset_sort_matches: "mset (sort_matches so ds) = mset ds"
  by (induction ds rule: rev_induct) (simp_all add: sort_matches_snoc mset_insert_sorted, simp add: sort_matches_def)


lemma length_sort_matches: "length (sort_matches so ds) = length ds"
  using mset_sort_matches [of so ds] by (metis size_mset)




lemma insert_sorted_take_all:
  "length xs \<le> n \<Longrightarrow> insert_sorted so d (take n xs) = insert_sorted so d xs"
  by simp

subsection \<open>The slice store\<close>






subsection \<open>The heap store\<close>

lemma mset_heap_merge: "mset_tree (heap_merge so t1 t2) = mset_tree t1 + mset_tree t2"
  by (induction so t1 t2 rule: heap_merge.induct) auto

lemma set_heap_merge: "set_tree (heap_merge so t1 t2) = set_tree t1 \<union> set_tree t2"
  using mset_heap_merge [of so t1 t2] by (metis set_mset_tree set_mset_union)

lemma size_heap_merge: "size (heap_merge so t1 t2) = size t1 + size t2"
  by (induction so t1 t2 rule: heap_merge.induct) auto

lemma heap_ordered_merge:
  assumes "heap_ordered so t1" "heap_ordered so t2"
    and "\<forall>x\<in>set_tree t1 \<union> set_tree t2. keyed so x"
  shows "heap_ordered so (heap_merge so t1 t2)"
  using assms
proof (induction so t1 t2 rule: heap_merge.induct)
  case (3 so l1 a1 r1 l2 a2 r2)
  show ?case
  proof (cases "Compare so a1 a2 \<ge> 0")
    case True
    then have a21: "Compare so a2 a1 \<le> 0" using Compare_sym [of so a2 a1] by simp
    have "\<forall>x\<in>set_tree (Node l2 a2 r2). Compare so x a1 \<le> 0"
    proof
      fix x assume x: "x \<in> set_tree (Node l2 a2 r2)"
      then have "Compare so x a2 \<le> 0" using "3.prems"(2) by (auto simp: Compare_refl)
      then show "Compare so x a1 \<le> 0"
        using Compare_le_trans [of so x a2 a1] a21 "3.prems"(3) x by auto
    qed
    moreover have "heap_ordered so (heap_merge so r1 (Node l2 a2 r2))"
      using "3.IH"(1) [OF True] "3.prems" by auto
    ultimately show ?thesis using True "3.prems"(1)
      by (auto simp: set_heap_merge)
  next
    case False
    then have a12: "Compare so a1 a2 \<le> 0" by simp
    have "\<forall>x\<in>set_tree (Node l1 a1 r1). Compare so x a2 \<le> 0"
    proof
      fix x assume x: "x \<in> set_tree (Node l1 a1 r1)"
      then have "Compare so x a1 \<le> 0" using "3.prems"(1) by (auto simp: Compare_refl)
      then show "Compare so x a2 \<le> 0"
        using Compare_le_trans [of so x a1 a2] a12 "3.prems"(3) x by auto
    qed
    moreover have "heap_ordered so (heap_merge so (Node l1 a1 r1) r2)"
      using "3.IH"(2) [OF False] "3.prems" by auto
    ultimately show ?thesis using False "3.prems"(2)
      by (auto simp: set_heap_merge)
  qed
qed auto

lemma heap_pops_all:
  assumes "heap_ordered so t" "\<forall>x\<in>set_tree t. keyed so x"
  shows "ranked so (heap_pops so (size t) t) \<and> mset (heap_pops so (size t) t) = mset_tree t"
  using assms
proof (induction "size t" arbitrary: t)
  case 0
  then show ?case by (simp add: ranked_def)
next
  case (Suc k)
  then obtain l a r where t: "t = Node l a r" by (cases t) auto
  let ?m = "heap_merge so l r"
  have sz: "size ?m = k" using Suc.hyps(2) t by (simp add: size_heap_merge)
  have ho: "heap_ordered so ?m" using Suc.prems t by (auto intro: heap_ordered_merge)
  have ky: "\<forall>x\<in>set_tree ?m. keyed so x" using Suc.prems t by (auto simp: set_heap_merge)
  have IH: "ranked so (heap_pops so (size ?m) ?m) \<and> mset (heap_pops so (size ?m) ?m) = mset_tree ?m"
    using Suc.hyps(1) [of ?m] sz ho ky by simp
  have pops: "heap_pops so (size t) t = heap_pops so (size ?m) ?m @ [a]"
    using t sz Suc.hyps(2) by (simp add: size_heap_merge)
  have "set (heap_pops so (size ?m) ?m) = set_tree l \<union> set_tree r"
    using IH by (metis set_mset_mset set_mset_tree set_heap_merge)
  then have "\<forall>x\<in>set (heap_pops so (size ?m) ?m). Compare so x a \<le> 0"
    using Suc.prems(1) t by auto
  then show ?case using IH pops t
    by (simp add: ranked_def sorted_wrt_append mset_heap_merge)
qed



lemma mset_heap_pops_all: "mset (heap_pops so (size t) t) = mset_tree t"
proof (induction "size t" arbitrary: t)
  case 0
  then show ?case by simp
next
  case (Suc k)
  then obtain l a r where t: "t = Node l a r" by (cases t) auto
  have "size (heap_merge so l r) = k" using Suc.hyps(2) t by (simp add: size_heap_merge)
  then have "mset (heap_pops so k (heap_merge so l r)) = mset_tree (heap_merge so l r)"
    using Suc.hyps(1) [of "heap_merge so l r"] by simp
  then show ?case using t Suc.hyps(2) by (simp add: size_heap_merge mset_heap_merge)
qed

lemma set_store_entries_heap: "set (heap_pops so (size t) t) = set_tree t"
  using mset_heap_pops_all [of so t] by (metis set_mset_mset set_mset_tree)

lemma ranked_store_entries:
  "store_ok so st \<Longrightarrow> \<forall>x\<in>set (store_entries so st). keyed so x \<Longrightarrow> ranked so (store_entries so st)"
  by (cases st) (auto simp: heap_pops_all set_store_entries_heap)





section \<open>The compare stage keeps its invariant\<close>










declare reverse_loop.simps [simp del]





section \<open>The loop of Collect\<close>

lemma wrap64_id: "- (2 ^ 63) \<le> x \<Longrightarrow> x < 2 ^ 63 \<Longrightarrow> wrap64 x = x"
  by (simp add: wrap64_def)















section \<open>Runs of the compare stage, search-after and cancellation\<close>



















section \<open>Lemmas about the channel of MultiSearch\<close>

lemma from_searcher_simps:
  "from_searcher i [] = []"
  "from_searcher i (xs @ ys) = from_searcher i xs @ from_searcher i ys"
  "from_searcher i ((j, d) # xs) = (if j = i then d # from_searcher i xs else from_searcher i xs)"
  by (simp_all add: from_searcher_def)

lemma multi_inv_init:
  "NewMultiSearcherList ss cc = Inr m \<Longrightarrow> multi_inv cc ss m"
  by (auto simp: NewMultiSearcherList_def multi_inv_def from_searcher_simps go_limit_def
      split: if_splits)

lemma filter_running_update_le:
  "length (filter is_running (ts[i := g])) \<le> Suc (length (filter is_running ts))"
proof (induction ts arbitrary: i)
  case Nil
  then show ?case by simp
next
  case (Cons t ts)
  show ?case
  proof (cases i)
    case 0
    then show ?thesis by simp
  next
    case (Suc k)
    then show ?thesis using Cons.IH [of k] by simp
  qed
qed

lemma filter_running_update_not:
  "\<not> is_running g \<Longrightarrow> length (filter is_running (ts[i := g])) \<le> length (filter is_running ts)"
proof (induction ts arbitrary: i)
  case Nil
  then show ?case by simp
next
  case (Cons t ts)
  show ?case
  proof (cases i)
    case 0
    then show ?thesis using Cons.prems by simp
  next
    case (Suc k)
    then show ?thesis using Cons.IH [of k] Cons.prems by simp
  qed
qed

lemma filter_running_update_same:
  "i < length ts \<Longrightarrow> is_running (ts ! i) \<Longrightarrow> is_running g \<Longrightarrow>
   length (filter is_running (ts[i := g])) = length (filter is_running ts)"
proof (induction ts arbitrary: i)
  case Nil
  then show ?case by simp
next
  case (Cons t ts)
  show ?case
  proof (cases i)
    case 0
    then show ?thesis using Cons.prems by simp
  next
    case (Suc k)
    then show ?thesis using Cons.IH [of k] Cons.prems by simp
  qed
qed

lemma filter_running_empty: "filter is_running ts = [] \<longleftrightarrow> (\<forall>t\<in>set ts. \<not> is_running t)"
  by (simp add: filter_empty_conv)

lemma running_nonempty:
  "i < length ts \<Longrightarrow> ts ! i = Running r \<Longrightarrow> filter is_running ts \<noteq> []"
  by (metis filter_empty_conv is_running.simps(1) nth_mem)

lemma delivered_simps:
  "delivered cc [] = []"
  "delivered cc (d # ds) =
     (if length (NeededFields cc) > 0 \<and> LoadResult d \<noteq> None then [] else d # delivered cc ds)"
  by (simp_all add: delivered_def)

lemma inv_GoNext:
  assumes inv: "multi_inv cc ss m" and st: "multi_step cc GoNext m = Some m'"
  shows "multi_inv cc ss m'"
proof -
  let ?n = "next_go m"
  have g: "?n < length ss" "length (filter is_running (tasks m)) < go_limit"
    and m': "m' = m\<lparr>tasks := (tasks m)[?n := Running (matches (ss ! ?n))], next_go := Suc ?n\<rparr>"
    using st inv by (auto simp: multi_step_def multi_inv_def split: if_splits)
  have pend: "tasks m ! ?n = Pending" using inv g by (simp add: multi_inv_def)
  have nc: "\<not> docChan_closed m" "\<not> ended m" using inv g by (auto simp: multi_inv_def)
  have cnt: "length (filter is_running (tasks m'))  \<le> go_limit"
    using filter_running_update_le [of "tasks m" ?n "Running (matches (ss ! ?n))"] g m' by simp
  have pd: "\<forall>i<length ss. (tasks m' ! i = Pending) = (next_go m' \<le> i)"
  proof (intro allI impI)
    fix i assume i: "i < length ss"
    show "(tasks m' ! i = Pending) = (next_go m' \<le> i)"
    proof (cases "i = ?n")
      case True
      then show ?thesis using m' inv i by (simp add: multi_inv_def)
    next
      case False
      have "(tasks m ! i = Pending) = (?n \<le> i)" using inv i by (simp add: multi_inv_def)
      then show ?thesis using False m' by auto
    qed
  qed
  have funl: "\<forall>i<length ss. from_searcher i (received m') @ from_searcher i (docChan m')
              @ todo cc (ss ! i) (tasks m' ! i) = delivered cc (matches (ss ! i))"
  proof (intro allI impI)
    fix i assume i: "i < length ss"
    have old: "from_searcher i (received m) @ from_searcher i (docChan m)
              @ todo cc (ss ! i) (tasks m ! i) = delivered cc (matches (ss ! i))"
      using inv i by (simp add: multi_inv_def)
    show "from_searcher i (received m') @ from_searcher i (docChan m')
              @ todo cc (ss ! i) (tasks m' ! i) = delivered cc (matches (ss ! i))"
    proof (cases "i = ?n")
      case True
      then show ?thesis using old pend m' inv i by (simp add: multi_inv_def)
    next
      case False
      then show ?thesis using old m' by simp
    qed
  qed
  show ?thesis
    using inv g nc cnt pd funl unfolding multi_inv_def
    by (simp add: m')
qed

lemma inv_Task:
  assumes inv: "multi_inv cc ss m" and st: "multi_step cc (Task i) m = Some m'"
  shows "multi_inv cc ss m'"
proof -
  have i: "i < length ss" using st inv by (auto simp: multi_step_def multi_inv_def split: if_splits)
  have len: "length (tasks m) = length ss" and ss: "searchers m = ss"
    using inv by (simp_all add: multi_inv_def)
  obtain r where r: "tasks m ! i = Running r"
    using st i len by (auto simp: multi_step_def split: if_splits gstate.splits list.splits)
  have nc: "\<not> docChan_closed m" "\<not> ended m"
    using inv running_nonempty [of i "tasks m" r] i len r by (auto simp: multi_inv_def)
  have np: "\<not> next_go m \<le> i" using inv i r by (auto simp: multi_inv_def)
  have old: "\<And>j. j < length ss \<Longrightarrow> from_searcher j (received m) @ from_searcher j (docChan m)
              @ todo cc (ss ! j) (tasks m ! j) = delivered cc (matches (ss ! j))"
    using inv by (simp add: multi_inv_def)
  have pdo: "\<And>j. j < length ss \<Longrightarrow> (tasks m ! j = Pending) = (next_go m \<le> j)"
    using inv by (simp add: multi_inv_def)
  consider (ret) e where "m' = task_return i e m" "delivered cc r = []"
    | (send) d rest where "r = d # rest" "\<not> (length (NeededFields cc) > 0 \<and> LoadResult d \<noteq> None)"
        "length (docChan m) < docChan_cap m"
        "m' = m\<lparr>docChan := docChan m @ [(i, d)], tasks := (tasks m)[i := Running rest]\<rparr>"
    using st i len r
    by (cases r) (auto simp: multi_step_def delivered_simps split: if_splits)
  then show ?thesis
  proof cases
    case ret
    have cnt: "length (filter is_running (tasks m')) \<le> go_limit"
      using filter_running_update_not [of Done "tasks m" i] inv ret
      by (simp add: task_return_def multi_inv_def)
    have pd: "\<forall>j<length ss. (tasks m' ! j = Pending) = (next_go m' \<le> j)"
    proof (intro allI impI)
      fix j assume j: "j < length ss"
      show "(tasks m' ! j = Pending) = (next_go m' \<le> j)"
        using pdo [OF j] np ret len j by (cases "j = i") (simp_all add: task_return_def)
    qed
    have funl: "\<forall>j<length ss. from_searcher j (received m') @ from_searcher j (docChan m')
              @ todo cc (ss ! j) (tasks m' ! j) = delivered cc (matches (ss ! j))"
    proof (intro allI impI)
      fix j assume j: "j < length ss"
      show "from_searcher j (received m') @ from_searcher j (docChan m')
              @ todo cc (ss ! j) (tasks m' ! j) = delivered cc (matches (ss ! j))"
        using old [OF j] r ret len j by (cases "j = i") (simp_all add: task_return_def)
    qed
    show ?thesis
      using inv nc cnt pd funl unfolding multi_inv_def
      by (simp add: ret task_return_def)
  next
    case send
    have cnt: "length (filter is_running (tasks m')) \<le> go_limit"
      using filter_running_update_same [of i "tasks m" "Running rest"] inv send i len r
      by (simp add: multi_inv_def)
    have pd: "\<forall>j<length ss. (tasks m' ! j = Pending) = (next_go m' \<le> j)"
    proof (intro allI impI)
      fix j assume j: "j < length ss"
      show "(tasks m' ! j = Pending) = (next_go m' \<le> j)"
        using pdo [OF j] np send len j by (cases "j = i") simp_all
    qed
    have funl: "\<forall>j<length ss. from_searcher j (received m') @ from_searcher j (docChan m')
              @ todo cc (ss ! j) (tasks m' ! j) = delivered cc (matches (ss ! j))"
    proof (intro allI impI)
      fix j assume j: "j < length ss"
      show "from_searcher j (received m') @ from_searcher j (docChan m')
              @ todo cc (ss ! j) (tasks m' ! j) = delivered cc (matches (ss ! j))"
        using old [OF j] r send len j
        by (cases "j = i") (auto simp: from_searcher_simps delivered_simps split: if_splits)
    qed
    show ?thesis
      using inv nc cnt pd funl send(3) unfolding multi_inv_def
      by (simp add: send(4))
  qed
qed

lemma inv_WaitClose:
  assumes inv: "multi_inv cc ss m" and st: "multi_step cc WaitClose m = Some m'"
  shows "multi_inv cc ss m'"
  using assms
  by (auto simp: multi_step_def multi_inv_def split: if_splits)

lemma inv_CallNext:
  assumes inv: "multi_inv cc ss m" and st: "multi_step cc CallNext m = Some m'"
  shows "multi_inv cc ss m'"
proof (cases "docChan m")
  case Nil
  then show ?thesis using assms
    by (auto simp: multi_step_def multi_inv_def Next_msl_def split: if_splits)
next
  case (Cons x rest)
  obtain i d where x: "x = (i, d)" by (cases x)
  have m': "m' = m\<lparr>docChan := rest, received := received m @ [(i, d)]\<rparr>" and ne: "\<not> ended m"
    using st Cons x by (auto simp: multi_step_def Next_msl_def split: if_splits)
  have "\<forall>j<length ss. from_searcher j (received m') @ from_searcher j (docChan m')
              @ todo cc (ss ! j) (tasks m' ! j) = delivered cc (matches (ss ! j))"
  proof (intro allI impI)
    fix j assume j: "j < length ss"
    have "from_searcher j (received m) @ from_searcher j (docChan m)
              @ todo cc (ss ! j) (tasks m ! j) = delivered cc (matches (ss ! j))"
      using inv j by (simp add: multi_inv_def)
    then show "from_searcher j (received m') @ from_searcher j (docChan m')
              @ todo cc (ss ! j) (tasks m' ! j) = delivered cc (matches (ss ! j))"
      using m' Cons x by (auto simp: from_searcher_simps split: if_splits)
  qed
  then show ?thesis using inv ne Cons unfolding multi_inv_def by (simp add: m')
qed

lemma inv_step:
  "multi_inv cc ss m \<Longrightarrow> multi_step cc a m = Some m' \<Longrightarrow> multi_inv cc ss m'"
  by (cases a) (auto intro: inv_GoNext inv_Task inv_WaitClose inv_CallNext)

lemma inv_run:
  "multi_inv cc ss m \<Longrightarrow> multi_run cc as m = Some m' \<Longrightarrow> multi_inv cc ss m'"
proof (induction as arbitrary: m)
  case Nil
  then show ?case by simp
next
  case (Cons a as)
  then show ?case by (auto split: option.splits dest: inv_step)
qed

lemma weights_update:
  assumes "i < length ts"
  shows "sum_list (map (\<lambda>j. weight (ts[i := g] ! j) (ss ! j)) [0..<length ts]) + weight (ts ! i) (ss ! i)
       = sum_list (map (\<lambda>j. weight (ts ! j) (ss ! j)) [0..<length ts]) + weight g (ss ! i)"
proof -
  let ?ws = "map (\<lambda>j. weight (ts ! j) (ss ! j)) [0..<length ts]"
  have "map (\<lambda>j. weight (ts[i := g] ! j) (ss ! j)) [0..<length ts] = ?ws[i := weight g (ss ! i)]"
    using assms by (intro nth_equalityI) (auto simp: nth_list_update)
  moreover have "sum_list (?ws[i := weight g (ss ! i)]) + ?ws ! i = sum_list ?ws + weight g (ss ! i)"
  proof -
    have il: "i < length ?ws" using assms by simp
    have le: "?ws ! i \<le> sum_list ?ws"
      using il by (intro member_le_sum_list nth_mem) simp_all
    have "sum_list (?ws[i := weight g (ss ! i)]) = sum_list ?ws + weight g (ss ! i) - ?ws ! i"
      using il by (rule sum_list_update)
    then show ?thesis using le by linarith
  qed
  ultimately show ?thesis using assms by simp
qed

lemma step_decreases:
  assumes inv: "multi_inv cc ss m" and st: "multi_step cc a m = Some m'"
  shows "multi_measure m' < multi_measure m"
proof (cases a)
  case GoNext
  let ?n = "next_go m"
  have g: "?n < length (tasks m)" "tasks m ! ?n = Pending" "searchers m = ss"
    and m': "m' = m\<lparr>tasks := (tasks m)[?n := Running (matches (ss ! ?n))], next_go := Suc ?n\<rparr>"
    using st inv GoNext by (auto simp: multi_step_def multi_inv_def split: if_splits)
  show ?thesis
    using weights_update [OF g(1), of "Running (matches (ss ! ?n))" ss] g
    by (simp add: multi_measure_def m')
next
  case (Task i)
  have i: "i < length (tasks m)" and ss: "searchers m = ss"
    using st inv Task by (auto simp: multi_step_def multi_inv_def split: if_splits)
  obtain r where r: "tasks m ! i = Running r"
    using st i Task by (auto simp: multi_step_def split: if_splits gstate.splits list.splits)
  consider (ret) e where "m' = task_return i e m"
    | (send) d rest where "r = d # rest"
        "m' = m\<lparr>docChan := docChan m @ [(i, d)], tasks := (tasks m)[i := Running rest]\<rparr>"
    using st i r Task by (cases r) (auto simp: multi_step_def split: if_splits)
  then show ?thesis
  proof cases
    case ret
    then show ?thesis using weights_update [OF i, of Done ss] r ss
      by (simp add: multi_measure_def task_return_def)
  next
    case send
    then show ?thesis using weights_update [OF i, of "Running rest" ss] r ss
      by (simp add: multi_measure_def)
  qed
next
  case WaitClose
  then show ?thesis using st
    by (auto simp: multi_step_def multi_measure_def split: if_splits)
next
  case CallNext
  then show ?thesis using st inv
    by (auto simp: multi_step_def multi_measure_def Next_msl_def multi_inv_def
        split: if_splits list.splits)
qed

lemma progress:
  assumes inv: "multi_inv cc ss m" and ne: "\<not> ended m"
  shows "\<exists>a m'. multi_step cc a m = Some m'"
proof (cases "docChan m = [] \<and> \<not> docChan_closed m")
  case False
  then have "\<exists>m'. multi_step cc CallNext m = Some m'"
    using ne by (auto simp: multi_step_def Next_msl_def split: list.splits)
  then show ?thesis by blast
next
  case True
  have len: "length (tasks m) = length ss" and cap: "docChan_cap m = 2 * length ss" "0 < length ss"
    using inv by (simp_all add: multi_inv_def)
  show ?thesis
  proof (cases "filter is_running (tasks m) = []")
    case False
    then obtain t where "t \<in> set (tasks m)" "is_running t" by (auto simp: filter_empty_conv)
    then obtain i r where i: "i < length (tasks m)" "tasks m ! i = Running r"
      by (metis in_set_conv_nth is_running.elims(2))
    have "\<exists>m'. multi_step cc (Task i) m = Some m'"
      using i True cap by (cases r) (auto simp: multi_step_def)
    then show ?thesis by blast
  next
    case none: True
    show ?thesis
    proof (cases "next_go m < length ss")
      case True
      then have "\<exists>m'. multi_step cc GoNext m = Some m'"
        using none inv by (auto simp: multi_step_def multi_inv_def go_limit_def)
      then show ?thesis by blast
    next
      case False
      then have "\<exists>m'. multi_step cc WaitClose m = Some m'"
        using none inv \<open>docChan m = [] \<and> \<not> docChan_closed m\<close>
        by (auto simp: multi_step_def multi_inv_def)
      then show ?thesis by blast
    qed
  qed
qed

lemma run_append:
  "multi_run cc (as @ bs) m = (case multi_run cc as m of None \<Rightarrow> None | Some m' \<Rightarrow> multi_run cc bs m')"
  by (induction as arbitrary: m) (auto split: option.splits)

lemma completes:
  assumes "multi_inv cc ss m"
  shows "\<exists>as m'. multi_run cc as m = Some m' \<and> ended m'"
  using assms
proof (induction "multi_measure m" arbitrary: m rule: less_induct)
  case less
  show ?case
  proof (cases "ended m")
    case True
    then have "multi_run cc [] m = Some m \<and> ended m" by simp
    then show ?thesis by blast
  next
    case False
    then obtain a m1 where st: "multi_step cc a m = Some m1"
      using progress [OF less.prems] by blast
    have "multi_measure m1 < multi_measure m" using step_decreases [OF less.prems st] .
    moreover have "multi_inv cc ss m1" using inv_step [OF less.prems st] .
    ultimately obtain as m' where "multi_run cc as m1 = Some m' \<and> ended m'"
      using less.hyps by blast
    then have "multi_run cc (a # as) m = Some m' \<and> ended m'" using st by simp
    then show ?thesis by blast
  qed
qed

lemma run_bounded:
  "multi_inv cc ss m \<Longrightarrow> multi_run cc as m = Some m' \<Longrightarrow>
   length as + multi_measure m' \<le> multi_measure m"
proof (induction as arbitrary: m)
  case Nil
  then show ?case by simp
next
  case (Cons a as)
  then obtain m1 where st: "multi_step cc a m = Some m1" and r: "multi_run cc as m1 = Some m'"
    by (auto split: option.splits)
  have "length as + multi_measure m' \<le> multi_measure m1"
    using Cons.IH [OF inv_step [OF Cons.prems(1) st] r] .
  then show ?case using step_decreases [OF Cons.prems(1) st] by simp
qed

lemma err_inv_init: "NewMultiSearcherList ss cc = Inr m \<Longrightarrow> err_inv cc ss m"
  by (auto simp: NewMultiSearcherList_def err_inv_def split: if_splits)

lemma err_GoNext:
  assumes inv: "multi_inv cc ss m" and e: "err_inv cc ss m"
    and st: "multi_step cc GoNext m = Some m'"
  shows "err_inv cc ss m'"
proof -
  let ?n = "next_go m"
  have g: "?n < length ss" "length (tasks m) = length ss" "tasks m ! ?n = Pending"
    and m': "m' = m\<lparr>tasks := (tasks m)[?n := Running (matches (ss ! ?n))], next_go := Suc ?n\<rparr>"
    using st inv by (auto simp: multi_step_def multi_inv_def split: if_splits)
  have t: "\<And>i. i < length ss \<Longrightarrow> i \<noteq> ?n \<Longrightarrow> tasks m' ! i = tasks m ! i"
    "tasks m' ! ?n = Running (matches (ss ! ?n))"
    using g m' by simp_all
  have d: "\<And>i. i < length ss \<Longrightarrow> (tasks m' ! i = Done) = (tasks m ! i = Done)"
    using g t by (metis gstate.distinct(3) gstate.distinct(5))
  have f: "group_err m' = group_err m" "logged m' = logged m" "docChan_closed m' = docChan_closed m"
    using m' by simp_all
  have r: "\<forall>i<length ss. \<forall>r. tasks m' ! i = Running r \<longrightarrow>
          err_after cc r (failure (ss ! i)) = task_error cc (ss ! i)"
  proof (intro allI impI)
    fix i r assume i: "i < length ss" and r: "tasks m' ! i = Running r"
    show "err_after cc r (failure (ss ! i)) = task_error cc (ss ! i)"
    proof (cases "i = ?n")
      case True
      then show ?thesis using r t(2) by (simp add: task_error_def)
    next
      case False
      then show ?thesis using e i r t(1) by (simp add: err_inv_def)
    qed
  qed
  show ?thesis using e r unfolding err_inv_def f by (simp add: d cong: conj_cong)
qed

lemma err_Task:
  assumes inv: "multi_inv cc ss m" and e: "err_inv cc ss m"
    and st: "multi_step cc (Task i) m = Some m'"
  shows "err_inv cc ss m'"
proof -
  have i: "i < length ss" and len: "length (tasks m) = length ss" and ss: "searchers m = ss"
    using st inv by (auto simp: multi_step_def multi_inv_def split: if_splits)
  obtain r where r: "tasks m ! i = Running r"
    using st i len by (auto simp: multi_step_def split: if_splits gstate.splits list.splits)
  have nc: "\<not> docChan_closed m"
    using inv running_nonempty [of i "tasks m" r] i len r by (auto simp: multi_inv_def)
  have er: "err_after cc r (failure (ss ! i)) = task_error cc (ss ! i)"
    using e i r by (simp add: err_inv_def)
  consider (ret) x where "m' = task_return i x m" "x = task_error cc (ss ! i)"
    | (send) d rest where "r = d # rest" "\<not> (length (NeededFields cc) > 0 \<and> LoadResult d \<noteq> None)"
        "m' = m\<lparr>docChan := docChan m @ [(i, d)], tasks := (tasks m)[i := Running rest]\<rparr>"
    using st i len r er ss
    by (cases r) (auto simp: multi_step_def split: if_splits)
  then show ?thesis
  proof cases
    case ret
    have t: "\<And>j. j < length ss \<Longrightarrow> j \<noteq> i \<Longrightarrow> tasks m' ! j = tasks m ! j" "tasks m' ! i = Done"
      using ret i len by (simp_all add: task_return_def)
    have ge: "group_err m' = (case group_err m of None \<Rightarrow> x | Some y \<Rightarrow> Some y)"
      using ret by (cases "group_err m") (simp_all add: task_return_def)
    have f: "logged m' = logged m" "docChan_closed m' = docChan_closed m"
      using ret by (simp_all add: task_return_def)
    have c1: "\<forall>j<length ss. \<forall>r. tasks m' ! j = Running r \<longrightarrow>
          err_after cc r (failure (ss ! j)) = task_error cc (ss ! j)"
    proof (intro allI impI)
      fix j q assume j: "j < length ss" and q: "tasks m' ! j = Running q"
      then have "j \<noteq> i" using t(2) by auto
      then show "err_after cc q (failure (ss ! j)) = task_error cc (ss ! j)"
        using e j q t(1) by (simp add: err_inv_def)
    qed
    have c2: "\<forall>y. group_err m' = Some y \<longrightarrow>
            (\<exists>j<length ss. tasks m' ! j = Done \<and> task_error cc (ss ! j) = Some y)"
    proof (intro allI impI)
      fix y assume y: "group_err m' = Some y"
      show "\<exists>j<length ss. tasks m' ! j = Done \<and> task_error cc (ss ! j) = Some y"
      proof (cases "group_err m")
        case None
        then have "task_error cc (ss ! i) = Some y" using y ge ret by simp
        then show ?thesis using i t(2) by blast
      next
        case (Some z)
        then have "z = y" using y ge by simp
        then obtain j where j: "j < length ss" "tasks m ! j = Done" "task_error cc (ss ! j) = Some y"
          using e Some by (auto simp: err_inv_def)
        then have "j \<noteq> i" using r by auto
        then show ?thesis using j t(1) by auto
      qed
    qed
    have c3: "group_err m' = None \<longrightarrow>
            (\<forall>j<length ss. tasks m' ! j = Done \<longrightarrow> task_error cc (ss ! j) = None)"
    proof (intro impI allI)
      fix j assume n: "group_err m' = None" and j: "j < length ss" and dn: "tasks m' ! j = Done"
      have old: "group_err m = None" "x = None" using n ge by (auto split: option.splits)
      show "task_error cc (ss ! j) = None"
      proof (cases "j = i")
        case True
        then show ?thesis using old ret by simp
      next
        case False
        then show ?thesis using e old j dn t(1) by (simp add: err_inv_def)
      qed
    qed
    have c4: "logged m' = (if docChan_closed m'
                    then (case group_err m' of None \<Rightarrow> [] | Some e \<Rightarrow> [e]) else [])"
      using e nc f by (simp add: err_inv_def)
    show ?thesis unfolding err_inv_def by (intro conjI c1 c2 c3 c4)
  next
    case send
    have t: "\<And>j. j < length ss \<Longrightarrow> j \<noteq> i \<Longrightarrow> tasks m' ! j = tasks m ! j"
      "tasks m' ! i = Running rest"
      using send i len by simp_all
    have d: "\<And>j. j < length ss \<Longrightarrow> (tasks m' ! j = Done) = (tasks m ! j = Done)"
      using t r by (metis gstate.distinct(5))
    have f: "group_err m' = group_err m" "logged m' = logged m" "docChan_closed m' = docChan_closed m"
      using send by simp_all
    have c1: "\<forall>j<length ss. \<forall>q. tasks m' ! j = Running q \<longrightarrow>
          err_after cc q (failure (ss ! j)) = task_error cc (ss ! j)"
    proof (intro allI impI)
      fix j q assume j: "j < length ss" and q: "tasks m' ! j = Running q"
      show "err_after cc q (failure (ss ! j)) = task_error cc (ss ! j)"
      proof (cases "j = i")
        case True
        then show ?thesis using q t(2) er send(1,2) by auto
      next
        case False
        then show ?thesis using e j q t(1) by (simp add: err_inv_def)
      qed
    qed
    show ?thesis using e c1 unfolding err_inv_def f by (simp add: d cong: conj_cong)
  qed
qed

lemma err_WaitClose:
  assumes e: "err_inv cc ss m" and st: "multi_step cc WaitClose m = Some m'"
  shows "err_inv cc ss m'"
  using assms by (auto simp: multi_step_def err_inv_def split: if_splits option.splits)

lemma err_CallNext:
  assumes e: "err_inv cc ss m" and st: "multi_step cc CallNext m = Some m'"
  shows "err_inv cc ss m'"
  using assms
  by (auto simp: multi_step_def err_inv_def Next_msl_def split: if_splits list.splits)

lemma err_step:
  "multi_inv cc ss m \<Longrightarrow> err_inv cc ss m \<Longrightarrow> multi_step cc a m = Some m' \<Longrightarrow> err_inv cc ss m'"
  by (cases a) (auto intro: err_GoNext err_Task err_WaitClose err_CallNext)

lemma err_run:
  "multi_inv cc ss m \<Longrightarrow> err_inv cc ss m \<Longrightarrow> multi_run cc as m = Some m' \<Longrightarrow> err_inv cc ss m'"
proof (induction as arbitrary: m)
  case Nil
  then show ?case by simp
next
  case (Cons a as)
  then obtain m1 where st: "multi_step cc a m = Some m1" and r: "multi_run cc as m1 = Some m'"
    by (auto split: option.splits)
  show ?case
    using Cons.IH [OF inv_step [OF Cons.prems(1) st] err_step [OF Cons.prems(1,2) st] r] .
qed

lemma ended_all_done:
  assumes "multi_inv cc ss m" "ended m" "i < length ss"
  shows "tasks m ! i = Done"
proof -
  have c: "next_go m = length ss" "filter is_running (tasks m) = []" "length (tasks m) = length ss"
    and p: "(tasks m ! i = Pending) = (next_go m \<le> i)"
    using assms by (auto simp: multi_inv_def)
  have "\<not> is_running (tasks m ! i)"
    using c assms(3) by (metis filter_empty_conv nth_mem)
  then show ?thesis using p c assms(3) by (cases "tasks m ! i") auto
qed

lemma ended_delivered:
  assumes "multi_inv cc ss m" "ended m" "i < length ss"
  shows "from_searcher i (received m) = delivered cc (matches (ss ! i))"
proof -
  have "from_searcher i (received m) @ from_searcher i (docChan m)
              @ todo cc (ss ! i) (tasks m ! i) = delivered cc (matches (ss ! i))"
    and "docChan m = []"
    using assms by (auto simp: multi_inv_def)
  then show ?thesis using ended_all_done [OF assms] by (simp add: from_searcher_simps)
qed

lemma open_searchers_Inr: "open_searchers (map Inr ss) = Inr ss"
  by (induction ss) simp_all

lemma MultiSearch_ended:
  assumes "NewMultiSearcherList ss cc = Inr m0" "multi_run cc as m0 = Some m" "ended m"
  shows "MultiSearch ctx collector aggs cc (map Inr ss) as
       = Some (Inr (Collect_TopN collector ctx aggs
                      \<lparr>matches = map snd (received m), failure = None\<rparr>))"
  using assms by (simp add: MultiSearch_def open_searchers_Inr)

lemma ex_init: "NewMultiSearcherList [good_searcher, bad_searcher] no_fields = Inr two_started"
  by (simp add: NewMultiSearcherList_def two_started_def)

lemma ex_run: "multi_run no_fields one_schedule two_started = Some two_ended"
  by code_simp


section \<open>The claims\<close>








text \<open>
  Claim C4, as stated: the store is the ordered vector exactly when
  \<open>size + skip \<le> 10\<close>, and otherwise a max-heap of capacity \<open>size + skip + 1\<close>. For
  \<open>size = 1000\<close> and \<open>skip = 1\<close> the heap is allocated with capacity 1001, not 1002:
  the preallocation is capped at \<open>PreAllocSizeSkipCap + 1\<close>.
\<close>

theorem store_by_size_counterexample:
  "store_kind_is_heap (store (newTopNCollector 1000 1 by_number False))
   \<and> store_capacity (store (newTopNCollector 1000 1 by_number False)) = 1001
   \<and> store_capacity (store (newTopNCollector 1000 1 by_number False)) \<noteq> 1000 + 1 + 1"
  by (simp add: newTopNCollector_def Let_def wrap64_def PreAllocSizeSkipCap_def
      switchFromSliceToHeap_def newStoreHeap_def)

text \<open>
  Claim C4, amended. The store is the ordered vector exactly when \<open>size + skip\<close>
  (as Go computes it) is at most 10, and otherwise the heap; it starts empty, and
  its capacity is \<open>size + skip + 1\<close>, capped at \<open>PreAllocSizeSkipCap + 1 = 1001\<close>
  when \<open>size + skip\<close> exceeds 1000. Without overflow that is
  \<open>min (size + skip) 1000 + 1\<close>.
\<close>

theorem store_by_size:
  "let total = wrap64 (sz + sk); hc = newTopNCollector sz sk so rv in
     (store_kind_is_heap (store hc) \<longleftrightarrow> total > 10)
     \<and> store_capacity (store hc) = (if total > 1000 then 1001 else wrap64 (total + 1))
     \<and> backingSize hc = store_capacity (store hc)
     \<and> store_entries so (store hc) = []
     \<and> (0 \<le> sz \<and> 0 \<le> sk \<and> sz + sk < 2 ^ 63 - 1 \<longrightarrow>
          total = sz + sk \<and> store_capacity (store hc) = min (sz + sk) 1000 + 1)"
proof -
  have w: "wrap64 (1000 + 1) = 1001" by (simp add: wrap64_def)
  have "0 \<le> sz \<and> 0 \<le> sk \<and> sz + sk < 2 ^ 63 - 1 \<Longrightarrow>
      wrap64 (sz + sk) = sz + sk \<and> wrap64 (sz + sk + 1) = sz + sk + 1"
    by (simp add: wrap64_id)
  then show ?thesis using w
    by (auto simp: Let_def newTopNCollector_def PreAllocSizeSkipCap_def switchFromSliceToHeap_def
        newStoreHeap_def newStoreSlice_def)
qed

theorem store_by_size_witness:
  "(0::int) \<le> 1000 \<and> (0::int) \<le> 1 \<and> (1000::int) + 1 < 2 ^ 63 - 1
   \<and> store_kind_is_heap (store (newTopNCollector 1000 1 by_number False))
   \<and> store_capacity (store (newTopNCollector 1000 1 by_number False)) = min (1000 + 1) 1000 + 1
   \<and> \<not> store_kind_is_heap (store (newTopNCollector 7 3 by_number False))
   \<and> store_capacity (store (newTopNCollector 7 3 by_number False)) = 11"
  using store_by_size [of 1000 1 by_number False] store_by_size [of 7 3 by_number False]
  by (simp add: Let_def wrap64_def)









text \<open>
  Claim C8. \<open>MultiSearch\<close> over \<open>N \<ge> 1\<close> searchers, under every schedule of its tasks:
  the one channel has capacity \<open>2N\<close> and never holds more; at most 1000 tasks are
  active at a time; a run that has not ended can always take a further step; and
  when it has ended, the one collector has received from the channel, for every
  searcher, all the matches that searcher's task sends, in the searcher's order,
  whether or not another searcher has failed (nothing is cancelled), and the result
  of \<open>MultiSearch\<close> is the result of \<open>Collect\<close> over the matches received. A
  complete run exists, and no run takes more steps than the measure of the first
  state.
\<close>

theorem MultiSearch_funnel:
  assumes init: "NewMultiSearcherList ss cc = Inr m0"
  shows "docChan_cap m0 = 2 * length ss \<and> go_limit = 1000
     \<and> (\<forall>as m. multi_run cc as m0 = Some m \<longrightarrow>
           length (docChan m) \<le> 2 * length ss
           \<and> length (filter is_running (tasks m)) \<le> 1000
           \<and> (\<not> ended m \<longrightarrow> (\<exists>a m'. multi_step cc a m = Some m'))
           \<and> (ended m \<longrightarrow>
                 (\<forall>i<length ss. from_searcher i (received m) = delivered cc (matches (ss ! i)))
                 \<and> MultiSearch ctx collector aggs cc (map Inr ss) as
                     = Some (Inr (Collect_TopN collector ctx aggs
                                    \<lparr>matches = map snd (received m), failure = None\<rparr>))))
     \<and> (\<exists>as m. multi_run cc as m0 = Some m \<and> ended m)
     \<and> (\<forall>as m. multi_run cc as m0 = Some m \<longrightarrow>
           length as + multi_measure m \<le> multi_measure m0)"
proof -
  have inv0: "multi_inv cc ss m0" using init by (rule multi_inv_init)
  have c1: "docChan_cap m0 = 2 * length ss" using inv0 by (simp add: multi_inv_def)
  have c2: "go_limit = 1000" by (simp add: go_limit_def)
  have c3: "\<forall>as m. multi_run cc as m0 = Some m \<longrightarrow>
           length (docChan m) \<le> 2 * length ss
           \<and> length (filter is_running (tasks m)) \<le> 1000
           \<and> (\<not> ended m \<longrightarrow> (\<exists>a m'. multi_step cc a m = Some m'))
           \<and> (ended m \<longrightarrow>
                 (\<forall>i<length ss. from_searcher i (received m) = delivered cc (matches (ss ! i)))
                 \<and> MultiSearch ctx collector aggs cc (map Inr ss) as
                     = Some (Inr (Collect_TopN collector ctx aggs
                                    \<lparr>matches = map snd (received m), failure = None\<rparr>)))"
  proof (intro allI impI)
    fix as m assume run: "multi_run cc as m0 = Some m"
    have inv: "multi_inv cc ss m" using inv_run [OF inv0 run] .
    have a: "length (docChan m) \<le> 2 * length ss"
      "length (filter is_running (tasks m)) \<le> 1000"
      using inv by (simp_all add: multi_inv_def go_limit_def)
    have b: "\<not> ended m \<longrightarrow> (\<exists>a m'. multi_step cc a m = Some m')"
      using progress [OF inv] by blast
    have c: "ended m \<longrightarrow>
                 (\<forall>i<length ss. from_searcher i (received m) = delivered cc (matches (ss ! i)))
                 \<and> MultiSearch ctx collector aggs cc (map Inr ss) as
                     = Some (Inr (Collect_TopN collector ctx aggs
                                    \<lparr>matches = map snd (received m), failure = None\<rparr>))"
      using ended_delivered [OF inv] MultiSearch_ended [OF init run] by blast
    show "length (docChan m) \<le> 2 * length ss
           \<and> length (filter is_running (tasks m)) \<le> 1000
           \<and> (\<not> ended m \<longrightarrow> (\<exists>a m'. multi_step cc a m = Some m'))
           \<and> (ended m \<longrightarrow>
                 (\<forall>i<length ss. from_searcher i (received m) = delivered cc (matches (ss ! i)))
                 \<and> MultiSearch ctx collector aggs cc (map Inr ss) as
                     = Some (Inr (Collect_TopN collector ctx aggs
                                    \<lparr>matches = map snd (received m), failure = None\<rparr>)))"
      by (intro conjI a b c)
  qed
  have c4: "\<exists>as m. multi_run cc as m0 = Some m \<and> ended m" using completes [OF inv0] .
  have c5: "\<forall>as m. multi_run cc as m0 = Some m \<longrightarrow>
           length as + multi_measure m \<le> multi_measure m0"
    using run_bounded [OF inv0] by blast
  show ?thesis by (intro conjI c1 c2 c3 c4 c5)
qed

text \<open>
  The claim at two searchers, the second of which fails after two matches: all three
  matches reach the collector.
\<close>

theorem MultiSearch_funnel_witness:
  "NewMultiSearcherList [good_searcher, bad_searcher] no_fields = Inr two_started
   \<and> multi_run no_fields one_schedule two_started = Some two_ended
   \<and> ended two_ended
   \<and> failure bad_searcher = Some (Failure ''read'')
   \<and> from_searcher 0 (received two_ended) = matches good_searcher
   \<and> from_searcher 1 (received two_ended) = matches bad_searcher
   \<and> MultiSearch never_done top3 [] no_fields [Inr good_searcher, Inr bad_searcher] one_schedule
       = Some (Inr (Collect_TopN top3 never_done []
                      \<lparr>matches = [mk 1, mk 3, mk 2], failure = None\<rparr>))"
proof -
  have e: "ended two_ended" by (simp add: two_ended_def)
  have f: "failure bad_searcher = Some (Failure ''read'')" by (simp add: bad_searcher_def)
  have d0: "delivered no_fields (matches ([good_searcher, bad_searcher] ! 0)) = matches good_searcher"
    by (simp add: delivered_def no_fields_def)
  have d1: "delivered no_fields (matches ([good_searcher, bad_searcher] ! 1)) = matches bad_searcher"
    by (simp add: delivered_def no_fields_def)
  have r: "map snd (received two_ended) = [mk 1, mk 3, mk 2]" by (simp add: two_ended_def)
  note T = MultiSearch_funnel [OF ex_init, where ctx = never_done and collector = top3
      and aggs = "[]", THEN conjunct2, THEN conjunct2, THEN conjunct1, rule_format, OF ex_run]
  note T4 = T [THEN conjunct2, THEN conjunct2, THEN conjunct2, rule_format, OF e]
  have a0: "from_searcher 0 (received two_ended) = matches good_searcher"
    using T4 [THEN conjunct1, rule_format, of 0] d0 by simp
  have a1: "from_searcher 1 (received two_ended) = matches bad_searcher"
    using T4 [THEN conjunct1, rule_format, of 1] d1 by simp
  have a2: "MultiSearch never_done top3 [] no_fields [Inr good_searcher, Inr bad_searcher] one_schedule
       = Some (Inr (Collect_TopN top3 never_done []
                      \<lparr>matches = [mk 1, mk 3, mk 2], failure = None\<rparr>))"
    using T4 [THEN conjunct2] r by simp
  show ?thesis by (intro conjI ex_init ex_run e f a0 a1 a2)
qed

text \<open>
  Claim C9. In every state a run of \<open>MultiSearch\<close> over \<open>N \<ge> 1\<close> searchers reaches,
  the error \<open>Next\<close> returns is nil; once the channel is closed and empty, \<open>Next\<close>
  returns the nil match with the nil error. When the run has ended, the log holds
  the first error a task returned, if any task returned one (and is empty exactly
  when no task fails), and the result of \<open>MultiSearch\<close> is that of \<open>Collect\<close> over
  a searcher that returns the matches received and no error: the error of a child
  searcher is logged and reaches the caller in no other way.
\<close>

theorem Next_returns_nil_error:
  assumes init: "NewMultiSearcherList ss cc = Inr m0" and run: "multi_run cc as m0 = Some m"
  shows "(\<forall>r m'. Next_msl m = Some (r, m') \<longrightarrow> snd r = None)
     \<and> (docChan m = [] \<and> docChan_closed m \<longrightarrow>
           Next_msl m = Some ((None, None), m\<lparr>ended := True\<rparr>))
     \<and> (ended m \<longrightarrow>
           logged m = (case group_err m of None \<Rightarrow> [] | Some e \<Rightarrow> [e])
           \<and> ((logged m = []) = (\<forall>i<length ss. task_error cc (ss ! i) = None))
           \<and> (\<forall>e. e \<in> set (logged m) \<longrightarrow> (\<exists>i<length ss. task_error cc (ss ! i) = Some e))
           \<and> MultiSearch ctx collector aggs cc (map Inr ss) as
               = Some (Inr (Collect_TopN collector ctx aggs
                              \<lparr>matches = map snd (received m), failure = None\<rparr>)))"
proof -
  have inv: "multi_inv cc ss m" using inv_run [OF multi_inv_init [OF init] run] .
  have ei: "err_inv cc ss m" using err_run [OF multi_inv_init [OF init] err_inv_init [OF init] run] .
  have c1: "\<forall>r m'. Next_msl m = Some (r, m') \<longrightarrow> snd r = None"
    by (auto simp: Next_msl_def split: list.splits if_splits)
  have c2: "docChan m = [] \<and> docChan_closed m \<longrightarrow>
           Next_msl m = Some ((None, None), m\<lparr>ended := True\<rparr>)"
    by (simp add: Next_msl_def)
  have c3: "ended m \<longrightarrow>
           logged m = (case group_err m of None \<Rightarrow> [] | Some e \<Rightarrow> [e])
           \<and> ((logged m = []) = (\<forall>i<length ss. task_error cc (ss ! i) = None))
           \<and> (\<forall>e. e \<in> set (logged m) \<longrightarrow> (\<exists>i<length ss. task_error cc (ss ! i) = Some e))
           \<and> MultiSearch ctx collector aggs cc (map Inr ss) as
               = Some (Inr (Collect_TopN collector ctx aggs
                              \<lparr>matches = map snd (received m), failure = None\<rparr>))"
  proof
    assume en: "ended m"
    have cl: "docChan_closed m" using inv en by (simp add: multi_inv_def)
    have dn: "\<And>i. i < length ss \<Longrightarrow> tasks m ! i = Done" using ended_all_done [OF inv en] .
    have lg: "logged m = (case group_err m of None \<Rightarrow> [] | Some e \<Rightarrow> [e])"
      using ei cl by (simp add: err_inv_def)
    have g2: "\<forall>e. group_err m = Some e \<longrightarrow> (\<exists>i<length ss. task_error cc (ss ! i) = Some e)"
      using ei by (auto simp: err_inv_def)
    have g3: "group_err m = None \<longrightarrow> (\<forall>i<length ss. task_error cc (ss ! i) = None)"
      using ei dn by (auto simp: err_inv_def)
    have p2: "(logged m = []) = (\<forall>i<length ss. task_error cc (ss ! i) = None)"
    proof (cases "group_err m")
      case None
      then show ?thesis using lg g3 by simp
    next
      case (Some e)
      then obtain i where "i < length ss" "task_error cc (ss ! i) = Some e" using g2 by blast
      then show ?thesis using lg Some by auto
    qed
    have p3: "\<forall>e. e \<in> set (logged m) \<longrightarrow> (\<exists>i<length ss. task_error cc (ss ! i) = Some e)"
      using lg g2 by (cases "group_err m") auto
    show "logged m = (case group_err m of None \<Rightarrow> [] | Some e \<Rightarrow> [e])
           \<and> ((logged m = []) = (\<forall>i<length ss. task_error cc (ss ! i) = None))
           \<and> (\<forall>e. e \<in> set (logged m) \<longrightarrow> (\<exists>i<length ss. task_error cc (ss ! i) = Some e))
           \<and> MultiSearch ctx collector aggs cc (map Inr ss) as
               = Some (Inr (Collect_TopN collector ctx aggs
                              \<lparr>matches = map snd (received m), failure = None\<rparr>))"
      by (intro conjI lg p2 p3 MultiSearch_ended [OF init run en])
  qed
  show ?thesis by (intro conjI c1 c2 c3)
qed

text \<open>
  The claim at the two searchers above: the second one's error is logged, \<open>Next\<close>
  returns the nil match and the nil error at the end.
\<close>

theorem Next_returns_nil_error_witness:
  "NewMultiSearcherList [good_searcher, bad_searcher] no_fields = Inr two_started
   \<and> multi_run no_fields one_schedule two_started = Some two_ended
   \<and> docChan two_ended = [] \<and> docChan_closed two_ended \<and> ended two_ended
   \<and> task_error no_fields bad_searcher = Some (Failure ''read'')
   \<and> Next_msl two_ended = Some ((None, None), two_ended\<lparr>ended := True\<rparr>)
   \<and> logged two_ended = [Failure ''read'']
   \<and> MultiSearch never_done top3 [] no_fields [Inr good_searcher, Inr bad_searcher] one_schedule
       = Some (Inr (Collect_TopN top3 never_done []
                      \<lparr>matches = map snd (received two_ended), failure = None\<rparr>))"
proof -
  have e: "docChan two_ended = []" "docChan_closed two_ended" "ended two_ended"
    "logged two_ended = [Failure ''read'']"
    by (simp_all add: two_ended_def)
  have te: "task_error no_fields bad_searcher = Some (Failure ''read'')"
    by (simp add: task_error_def bad_searcher_def no_fields_def)
  note T = Next_returns_nil_error [OF ex_init ex_run, where ctx = never_done and collector = top3
      and aggs = "[]"]
  have a1: "Next_msl two_ended = Some ((None, None), two_ended\<lparr>ended := True\<rparr>)"
    using T [THEN conjunct2, THEN conjunct1] e by simp
  have a2: "MultiSearch never_done top3 [] no_fields [Inr good_searcher, Inr bad_searcher] one_schedule
       = Some (Inr (Collect_TopN top3 never_done []
                      \<lparr>matches = map snd (received two_ended), failure = None\<rparr>))"
    using T [THEN conjunct2, THEN conjunct2, rule_format, OF e(3)] by simp
  show ?thesis by (intro conjI ex_init ex_run e te a1 a2)
qed

text \<open>
  Claim C10, as stated: for every \<open>Config\<close> \<open>c\<close>, \<open>c.WithVirtualField(f)\<close> adds \<open>f\<close> to the
  map of virtual fields. \<open>Config\<close> is an exported struct; its zero value has the \<open>nil\<close>
  map, and on it the assignment \<open>config.virtualFields[field.Name()] = ...\<close> panics:
  nothing is added and no \<open>Config\<close> is returned.
\<close>

theorem WithVirtualField_shares_map_counterexample:
  "virtualFields zero_config = None
   \<and> WithVirtualField zero_config all_field no_virtual_fields = Inl AssignmentToEntryInNilMap
   \<and> virtual_fields_of zero_config no_virtual_fields (Name all_field) = []"
  by (simp add: zero_config_def WithVirtualField_def virtual_fields_of_def)

text \<open>
  Claim C10, amended. For a configuration \<open>c\<close> whose map of virtual fields is not \<open>nil\<close>
  (as that of every configuration built by \<open>defaultConfig\<close>), \<open>c.WithVirtualField(f)\<close>
  returns \<open>c\<close> itself, with the same map, and appends \<open>f\<close> under its name in that map:
  read through the receiver \<open>c\<close> afterwards, the map contains \<open>f\<close>; other names and
  other maps are unchanged. \<open>WithPersisterNapTimeMSec\<close> and \<open>WithNormCalc\<close> return a
  copy that differs from \<open>c\<close> in the named field only, and change no map.
\<close>

theorem WithVirtualField_shares_map:
  assumes "virtualFields c = Some a"
  shows "(\<exists>h'. WithVirtualField c f h = Inr (c, h')
           \<and> virtual_fields_of c h' (Name f) = virtual_fields_of c h (Name f) @ [f]
           \<and> f \<in> set (virtual_fields_of c h' (Name f))
           \<and> (\<forall>name. name \<noteq> Name f \<longrightarrow> virtual_fields_of c h' name = virtual_fields_of c h name)
           \<and> (\<forall>b. b \<noteq> a \<longrightarrow> h' b = h b))
       \<and> WithPersisterNapTimeMSec c n = c\<lparr>PersisterNapTimeMSec := n\<rparr>
       \<and> PersisterNapTimeMSec (WithPersisterNapTimeMSec c n) = n
       \<and> (WithPersisterNapTimeMSec c n)\<lparr>PersisterNapTimeMSec := PersisterNapTimeMSec c\<rparr> = c
       \<and> virtual_fields_of (WithPersisterNapTimeMSec c n) h = virtual_fields_of c h
       \<and> WithNormCalc c g = c\<lparr>NormCalc := g\<rparr>
       \<and> NormCalc (WithNormCalc c g) = g
       \<and> (WithNormCalc c g)\<lparr>NormCalc := NormCalc c\<rparr> = c
       \<and> virtual_fields_of (WithNormCalc c g) h = virtual_fields_of c h"
proof -
  let ?h' = "h(a := (h a)(Name f \<mapsto> virtual_fields_of c h (Name f) @ [f]))"
  have 1: "WithVirtualField c f h = Inr (c, ?h')"
    using assms by (simp add: WithVirtualField_def virtual_fields_of_def Let_def)
  have 2: "virtual_fields_of c ?h' (Name f) = virtual_fields_of c h (Name f) @ [f]"
    using assms by (simp add: virtual_fields_of_def)
  have 3: "\<forall>name. name \<noteq> Name f \<longrightarrow> virtual_fields_of c ?h' name = virtual_fields_of c h name"
    using assms by (simp add: virtual_fields_of_def)
  have 4: "\<forall>b. b \<noteq> a \<longrightarrow> ?h' b = h b" by simp
  have "\<exists>h'. WithVirtualField c f h = Inr (c, h')
           \<and> virtual_fields_of c h' (Name f) = virtual_fields_of c h (Name f) @ [f]
           \<and> f \<in> set (virtual_fields_of c h' (Name f))
           \<and> (\<forall>name. name \<noteq> Name f \<longrightarrow> virtual_fields_of c h' name = virtual_fields_of c h name)
           \<and> (\<forall>b. b \<noteq> a \<longrightarrow> h' b = h b)"
    using 1 2 3 4 by (intro exI [of _ ?h']) simp
  moreover have "virtual_fields_of (WithPersisterNapTimeMSec c n) h = virtual_fields_of c h"
    "virtual_fields_of (WithNormCalc c g) h = virtual_fields_of c h"
    by (simp_all add: fun_eq_iff WithPersisterNapTimeMSec_def WithNormCalc_def virtual_fields_of_def)
  ultimately show ?thesis
    by (simp add: WithPersisterNapTimeMSec_def WithNormCalc_def)
qed

text \<open>
  The claim at a configuration without virtual fields yet and the field \<open>_all\<close>.
\<close>

theorem WithVirtualField_shares_map_witness:
  "virtualFields some_config = Some 1
   \<and> virtual_fields_of some_config no_virtual_fields ''_all'' = []
   \<and> (\<exists>h'. WithVirtualField some_config all_field no_virtual_fields = Inr (some_config, h')
          \<and> virtual_fields_of some_config h' ''_all'' = [all_field])
   \<and> PersisterNapTimeMSec (WithPersisterNapTimeMSec some_config 5) = 5
   \<and> PersisterNapTimeMSec some_config = 0
   \<and> virtual_fields_of (WithPersisterNapTimeMSec some_config 5) no_virtual_fields ''_all'' = []
   \<and> NormCalc (WithNormCalc some_config (GoRef 7)) = GoRef 7
   \<and> NormCalc some_config = GoNil"
proof -
  have v: "virtualFields some_config = Some 1" by (simp add: some_config_def)
  have e: "virtual_fields_of some_config no_virtual_fields ''_all'' = []"
    by (simp add: virtual_fields_of_def some_config_def no_virtual_fields_def)
  have n: "Name all_field = ''_all''" by (simp add: all_field_def)
  have p: "PersisterNapTimeMSec some_config = 0" "NormCalc some_config = GoNil"
    by (simp_all add: some_config_def)
  note T = WithVirtualField_shares_map [OF v, where f = all_field and h = no_virtual_fields
      and n = 5 and g = "GoRef 7"]
  have a: "\<exists>h'. WithVirtualField some_config all_field no_virtual_fields = Inr (some_config, h')
          \<and> virtual_fields_of some_config h' ''_all'' = [all_field]"
    using T [THEN conjunct1] e n by auto
  have b: "PersisterNapTimeMSec (WithPersisterNapTimeMSec some_config 5) = 5"
    using T by blast
  have c: "virtual_fields_of (WithPersisterNapTimeMSec some_config 5) no_virtual_fields ''_all'' = []"
    using T [THEN conjunct2, THEN conjunct2, THEN conjunct2, THEN conjunct2, THEN conjunct1] e
    by simp
  have d: "NormCalc (WithNormCalc some_config (GoRef 7)) = GoRef 7"
    using T by blast
  show ?thesis by (intro conjI v e a b c d p)
qed


end
